theory Spec2Isabelle
  imports Main "HOL-Library.Multiset"
begin

section \<open>The promise-based Mutex and RwLock of rwlock-promise\<close>

text \<open>
  The library (\<^verbatim>\<open>src/index.ts\<close>) runs on a JavaScript event loop: one piece of code runs at
  a time, a promise reaction (\<^verbatim>\<open>.then\<close>, \<^verbatim>\<open>.catch\<close>, the continuation of an
  \<^verbatim>\<open>await\<close>) is a microtask appended to a FIFO queue, and microtasks run only when the
  call stack is empty.  The embedding is a state machine over one record holding the
  fields of the \<^verbatim>\<open>Mutex\<close> and of the \<^verbatim>\<open>RwLock\<close> that owns it, the arrays the
  \<^verbatim>\<open>RwLock\<close> shares by reference, and the part of the event loop the library relies on.

  Caller-supplied handlers are opaque.  Every call of \<^verbatim>\<open>run\<close>, \<^verbatim>\<open>read\<close> or
  \<^verbatim>\<open>write\<close> is named by the promise it returns (a \<open>pid\<close>, allocated in call order).
  What a handler does is decided by the environment: once a handler has been invoked, the
  event \<open>Settle p r\<close> settles the promise it returned, at any later moment, with any outcome.
  The protected value is passed to the handlers and never inspected by the locks, so it is
  not part of the state.
\<close>

subsection \<open>Data\<close>

type_synonym pid = nat  \<comment> \<open>a promise returned by \<^verbatim>\<open>run\<close>, \<^verbatim>\<open>read\<close> or \<^verbatim>\<open>write\<close>\<close>
type_synonym lid = nat  \<comment> \<open>the address of an \<^verbatim>\<open>AsyncRunnable[]\<close> array\<close>
type_synonym val = string  \<comment> \<open>a JavaScript value: a result, or a thrown value\<close>

datatype outcome = Ok val | Err val

text \<open>The three kinds of function that reach \<^verbatim>\<open>Mutex.run\<close> as its \<^verbatim>\<open>handler\<close>.\<close>

datatype task =
    UserFn  \<comment> \<open>a caller's async function, passed to \<^verbatim>\<open>Mutex.run\<close> directly\<close>
  | WriteFn  \<comment> \<open>\<^verbatim>\<open>async () => { return await handler(this.value) }\<close> of \<^verbatim>\<open>RwLock.write\<close>\<close>
  | BatchFn lid  \<comment> \<open>\<^verbatim>\<open>() => new Promise(batchDone => ...)\<close> of \<^verbatim>\<open>RwLock.read\<close>, closed over \<^verbatim>\<open>fxList\<close>\<close>

text \<open>
  The two \<^verbatim>\<open>.then(() => { this.remaining-- ... })\<close> closures of \<^verbatim>\<open>RwLock.read\<close>, each closed
  over its own \<^verbatim>\<open>fxList\<close>.
\<close>

datatype callback =
    BatchThen lid  \<comment> \<open>lines 197-209, registered by the loop of a starting batch\<close>
  | JoinThen lid  \<comment> \<open>lines 223-236, registered by a read that joins a running batch\<close>

text \<open>A caller's handler that has been invoked and whose promise is still pending.\<close>

datatype kind =
    UserH  \<comment> \<open>invoked by a work item of \<^verbatim>\<open>Mutex.run\<close>; \<^verbatim>\<open>.then/.catch\<close> of lines 84-93 wait on it\<close>
  | WriteH  \<comment> \<open>invoked inside the async wrapper of \<^verbatim>\<open>write\<close>, which awaits it\<close>
  | ReadH callback  \<comment> \<open>invoked inside \<^verbatim>\<open>vvvHandler\<close>, which awaits it; the callback waits on \<^verbatim>\<open>vvvHandler\<close>\<close>

text \<open>Microtasks: the promise reactions the library registers.\<close>

datatype job =
    MutexThen pid outcome  \<comment> \<open>\<^verbatim>\<open>.then(ret => ...)\<close> of line 84, with the outcome of the handler's promise\<close>
  | MutexCatch pid val  \<comment> \<open>\<^verbatim>\<open>.catch(err => ...)\<close> of line 89\<close>
  | WriteResume pid outcome  \<comment> \<open>the wrapper of \<^verbatim>\<open>write\<close> resuming after its \<^verbatim>\<open>await\<close>\<close>
  | ReadResume pid outcome callback  \<comment> \<open>\<^verbatim>\<open>vvvHandler\<close> resuming after its \<^verbatim>\<open>await\<close>\<close>
  | MemberThen callback  \<comment> \<open>the callback registered on a settled \<^verbatim>\<open>vvvHandler\<close>\<close>

text \<open>What an observer of the program can see happen, in order.\<close>

datatype obs =
    Submit pid  \<comment> \<open>\<^verbatim>\<open>Mutex.run\<close> pushed the work item of promise \<open>pid\<close>\<close>
  | Begin pid  \<comment> \<open>\<^verbatim>\<open>Mutex.next\<close> called the work item (\<^verbatim>\<open>fx()\<close>)\<close>
  | Invoke pid  \<comment> \<open>the caller's handler of call \<open>pid\<close> was called, and ran up to its first suspension\<close>
  | Settled pid outcome  \<comment> \<open>the promise returned to the caller was resolved or rejected\<close>

record state =
  running :: bool  \<comment> \<open>\<^verbatim>\<open>Mutex.running\<close>\<close>
  queue :: "(pid \<times> task) list"  \<comment> \<open>\<^verbatim>\<open>Mutex.queue\<close>: each closure with the promise and handler it captured\<close>
  remaining :: int  \<comment> \<open>\<^verbatim>\<open>RwLock.remaining\<close>\<close>
  tailFxList :: "lid option"  \<comment> \<open>\<^verbatim>\<open>RwLock.tailFxList\<close>: a reference or \<^verbatim>\<open>null\<close>\<close>
  batchDone :: "pid option"  \<comment> \<open>\<^verbatim>\<open>RwLock.batchDone\<close>: the resolver of a batch item's promise, or \<^verbatim>\<open>null\<close>\<close>
  arrays :: "lid \<Rightarrow> pid list"  \<comment> \<open>the store of \<^verbatim>\<open>fxList\<close> arrays; a member is the \<^verbatim>\<open>vvvHandler\<close> of a read\<close>
  next_pid :: pid  \<comment> \<open>allocation of promises\<close>
  next_lid :: lid  \<comment> \<open>allocation of arrays\<close>
  batch_pending :: "(pid \<times> lid) list"  \<comment> \<open>promises built by a \<open>BatchFn\<close> and not resolved yet\<close>
  active :: "(pid \<times> kind) list"  \<comment> \<open>handlers invoked, their promise pending\<close>
  jobs :: "job list"  \<comment> \<open>the microtask queue\<close>
  frames :: "(lid \<times> nat) list"  \<comment> \<open>the \<^verbatim>\<open>for (const fx of fxList)\<close> loops on the call stack, with their index\<close>
  settled :: "pid \<Rightarrow> outcome option"  \<comment> \<open>the returned promises; \<open>None\<close> is pending\<close>
  trace :: "obs list"

definition init :: state where
  "init = \<lparr> running = False, queue = [], remaining = 0, tailFxList = None, batchDone = None,
     arrays = (\<lambda>_. []), next_pid = 0, next_lid = 0, batch_pending = [], active = [],
     jobs = [], frames = [], settled = (\<lambda>_. None), trace = [] \<rparr>"

subsection \<open>Promise plumbing\<close>

definition observe :: "obs \<Rightarrow> state \<Rightarrow> state" where
  "observe x s = s\<lparr>trace := trace s @ [x]\<rparr>"

definition enqueue :: "job \<Rightarrow> state \<Rightarrow> state" where
  "enqueue j s = s\<lparr>jobs := jobs s @ [j]\<rparr>"

text \<open>\<^verbatim>\<open>resolve(v)\<close> and \<^verbatim>\<open>reject(e)\<close> of a returned promise: only the first call counts.\<close>

definition settle_promise :: "pid \<Rightarrow> outcome \<Rightarrow> state \<Rightarrow> state" where
  "settle_promise p r s =
     (if settled s p = None
      then observe (Settled p r) (s\<lparr>settled := (settled s)(p \<mapsto> r)\<rparr>)
      else s)"

text \<open>Calling a caller's handler: it runs to its first suspension and returns a pending promise.\<close>

definition invoke_handler :: "pid \<Rightarrow> kind \<Rightarrow> state \<Rightarrow> state" where
  "invoke_handler p k s = observe (Invoke p) (s\<lparr>active := active s @ [(p, k)]\<rparr>)"

text \<open>
  \<^verbatim>\<open>this.batchDone()\<close>: resolves the promise of the batch item, which queues the
  \<^verbatim>\<open>.then\<close> reaction of \<^verbatim>\<open>Mutex.run\<close>; resolving a promise twice does nothing.
\<close>

definition call_batchDone :: "pid \<Rightarrow> state \<Rightarrow> state" where
  "call_batchDone q s =
     (case map_of (batch_pending s) q of
        None \<Rightarrow> s
      | Some l \<Rightarrow> enqueue (MutexThen q (Ok ''undefined''))
                  (s\<lparr>batch_pending := remove1 (q, l) (batch_pending s)\<rparr>))"

subsection \<open>The loop of a starting batch\<close>

text \<open>
  One turn of \<^verbatim>\<open>for (const fx of fxList) { fx().then(...) }\<close> (lines 196-210).  The array
  iterator reads the live array: each turn compares its index with the current length.
  \<^verbatim>\<open>fx()\<close> runs the member's handler up to its first suspension, during which the handler may
  call the lock again; so the loop advances by one member per step, and the calls a handler
  makes before suspending are the calls that arrive between two steps.
\<close>

definition loop_step :: "state \<Rightarrow> state" where
  "loop_step s =
     (case frames s of
        [] \<Rightarrow> s
      | (l, i) # fs \<Rightarrow>
          if i < length (arrays s l)
          then invoke_handler (arrays s l ! i) (ReadH (BatchThen l)) (s\<lparr>frames := (l, Suc i) # fs\<rparr>)
          else s\<lparr>frames := fs\<rparr>)"

subsection \<open>Mutex\<close>

text \<open>
  \<^verbatim>\<open>fx()\<close>, the closure of lines 82-94: \<^verbatim>\<open>handler(this.value)\<close> is called, then the
  reactions are registered on what it returns.  For a batch this is the executor of
  lines 192-211: it stores its resolver, counts the members and enters the loop.
\<close>

definition call_fx :: "pid \<times> task \<Rightarrow> state \<Rightarrow> state" where
  "call_fx fx s =
     (case fx of
        (p, UserFn) \<Rightarrow> invoke_handler p UserH (observe (Begin p) s)
      | (p, WriteFn) \<Rightarrow> invoke_handler p WriteH (observe (Begin p) s)
      | (p, BatchFn l) \<Rightarrow>
          (let s1 = observe (Begin p) s;
               s2 = s1\<lparr>batchDone := Some p, batch_pending := batch_pending s1 @ [(p, l)]\<rparr>;
               s3 = s2\<lparr>remaining := int (length (arrays s2 l))\<rparr>
           in loop_step (s3\<lparr>frames := (l, 0) # frames s3\<rparr>)))"

text \<open>\<^verbatim>\<open>Mutex.next\<close> (lines 102-112); \<open>Inl\<close> is the thrown string.\<close>

definition next_fx :: "state \<Rightarrow> val + state" where
  "next_fx s =
     (if running s then Inl ''call to next() while still running''
      else (case queue s of
              [] \<Rightarrow> Inr s
            | fx # q \<Rightarrow> Inr (call_fx fx (s\<lparr>queue := q, running := True\<rparr>))))"

text \<open>
  \<^verbatim>\<open>Mutex.run\<close> (lines 80-100).  A throw inside the executor of \<^verbatim>\<open>new Promise\<close> rejects
  the promise under construction.
\<close>

definition run :: "task \<Rightarrow> state \<Rightarrow> pid \<times> state" where
  "run t s =
     (let p = next_pid s;
          s1 = s\<lparr>next_pid := Suc p\<rparr>;
          s2 = observe (Submit p) (s1\<lparr>queue := queue s1 @ [(p, t)]\<rparr>)
      in (p, if \<not> running s2
             then (case next_fx s2 of Inr s3 \<Rightarrow> s3 | Inl e \<Rightarrow> settle_promise p (Err e) s2)
             else s2))"

definition isIdle :: "state \<Rightarrow> bool" where
  "isIdle s = (\<not> running s)"

definition getQueueLength :: "state \<Rightarrow> nat" where
  "getQueueLength s = length (queue s)"

text \<open>
  The reaction of line 84.  A rejected handler promise passes through \<^verbatim>\<open>.then\<close> to
  \<^verbatim>\<open>.catch\<close>; so does a throw from inside the callback.
\<close>

definition mutex_then :: "pid \<Rightarrow> outcome \<Rightarrow> state \<Rightarrow> val + state" where
  "mutex_then p r s =
     (case r of
        Err e \<Rightarrow> Inr (enqueue (MutexCatch p e) s)
      | Ok v \<Rightarrow>
          (let s1 = settle_promise p (Ok v) s;
               s2 = s1\<lparr>running := False\<rparr>
           in (case next_fx s2 of
                 Inr s3 \<Rightarrow> Inr s3
               | Inl e \<Rightarrow> Inr (enqueue (MutexCatch p e) s2))))"

text \<open>The reaction of line 89.  Nothing catches a throw from it.\<close>

definition mutex_catch :: "pid \<Rightarrow> val \<Rightarrow> state \<Rightarrow> val + state" where
  "mutex_catch p e s =
     (let s1 = settle_promise p (Err e) s;
          s2 = s1\<lparr>running := False\<rparr>
      in next_fx s2)"

subsection \<open>RwLock\<close>

text \<open>\<^verbatim>\<open>RwLock.write\<close> (lines 164-169).\<close>

definition write_op :: "state \<Rightarrow> pid \<times> state" where
  "write_op s = run WriteFn (s\<lparr>tailFxList := None\<rparr>)"

text \<open>\<^verbatim>\<open>RwLock.read\<close> (lines 177-240); the promise of the inner \<^verbatim>\<open>mutex.run\<close> is dropped.\<close>

definition read :: "state \<Rightarrow> pid \<times> state" where
  "read s =
     (let p = next_pid s;
          s1 = s\<lparr>next_pid := Suc p\<rparr>
      in (p, case tailFxList s1 of
               None \<Rightarrow>
                 (let l = next_lid s1;
                      s2 = s1\<lparr>next_lid := Suc l, arrays := (arrays s1)(l := [p])\<rparr>;
                      s3 = s2\<lparr>tailFxList := Some l\<rparr>
                  in snd (run (BatchFn l) s3))
             | Some l \<Rightarrow>
                 if getQueueLength s1 > 0
                 then s1\<lparr>arrays := (arrays s1)(l := arrays s1 l @ [p])\<rparr>
                 else invoke_handler p (ReadH (JoinThen l)) (s1\<lparr>remaining := remaining s1 + 1\<rparr>)))"

text \<open>
  The callback of lines 197-209.  Nothing handles the promise \<^verbatim>\<open>.then\<close> returns, so its
  throw is an unhandled rejection: \<open>Inl\<close>.
\<close>

definition batch_then :: "lid \<Rightarrow> state \<Rightarrow> val + state" where
  "batch_then fxList s =
     (let s1 = s\<lparr>remaining := remaining s - 1\<rparr>
      in if remaining s1 = 0
         then (let s2 = (if tailFxList s1 = Some fxList then s1\<lparr>tailFxList := None\<rparr> else s1)
               in (case batchDone s2 of
                     None \<Rightarrow> Inl ''batchDone() should be set during mutex lock by read batch''
                   | Some q \<Rightarrow> Inr (call_batchDone q s2)))
         else Inr s1)"

text \<open>The callback of lines 223-236.\<close>

definition join_then :: "lid \<Rightarrow> state \<Rightarrow> val + state" where
  "join_then fxList s =
     (let s1 = s\<lparr>remaining := remaining s - 1\<rparr>
      in if remaining s1 = 0
         then (let s2 = (if tailFxList s1 = Some fxList then s1\<lparr>tailFxList := None\<rparr> else s1)
               in (case batchDone s2 of
                     None \<Rightarrow> Inl ''batchDone() should be set during mutex lock by read batch''
                   | Some q \<Rightarrow> Inr (call_batchDone q s2)))
         else Inr s1)"

subsection \<open>The event loop\<close>

fun run_job :: "job \<Rightarrow> state \<Rightarrow> val + state" where
  "run_job (MutexThen p r) s = mutex_then p r s"
| "run_job (MutexCatch p e) s = mutex_catch p e s"
| "run_job (WriteResume p r) s = Inr (enqueue (MutexThen p r) s)"
| "run_job (ReadResume p r cb) s = Inr (enqueue (MemberThen cb) (settle_promise p r s))"
| "run_job (MemberThen (BatchThen l)) s = batch_then l s"
| "run_job (MemberThen (JoinThen l)) s = join_then l s"

text \<open>The reaction waiting on the promise of an invoked handler.\<close>

fun reaction :: "pid \<Rightarrow> kind \<Rightarrow> outcome \<Rightarrow> job" where
  "reaction p UserH r = MutexThen p r"
| "reaction p WriteH r = WriteResume p r"
| "reaction p (ReadH cb) r = ReadResume p r cb"

text \<open>The promise of the invoked handler of call \<open>p\<close> settles; without such a handler nothing happens.\<close>

definition settle :: "pid \<Rightarrow> outcome \<Rightarrow> state \<Rightarrow> state" where
  "settle p r s =
     (case map_of (active s) p of
        None \<Rightarrow> s
      | Some k \<Rightarrow> enqueue (reaction p k r) (s\<lparr>active := remove1 (p, k) (active s)\<rparr>))"

text \<open>The head microtask runs, when there is one and the call stack is empty.\<close>

definition tick :: "state \<Rightarrow> val + state" where
  "tick s =
     (case jobs s of
        [] \<Rightarrow> Inr s
      | j # js \<Rightarrow> if frames s \<noteq> [] then Inr s else run_job j (s\<lparr>jobs := js\<rparr>))"

datatype event =
    CallRun  \<comment> \<open>\<^verbatim>\<open>mutex.run(handler)\<close>\<close>
  | CallRead  \<comment> \<open>\<^verbatim>\<open>lock.read(handler)\<close>\<close>
  | CallWrite  \<comment> \<open>\<^verbatim>\<open>lock.write(handler)\<close>\<close>
  | Settle pid outcome  \<comment> \<open>an invoked handler's promise settles\<close>
  | Tick  \<comment> \<open>the next microtask\<close>
  | LoopStep  \<comment> \<open>the handler a batch loop just invoked has suspended: the loop goes on\<close>

fun step :: "event \<Rightarrow> state \<Rightarrow> val + state" where
  "step CallRun s = Inr (snd (run UserFn s))"
| "step CallRead s = Inr (snd (read s))"
| "step CallWrite s = Inr (snd (write_op s))"
| "step (Settle p r) s = Inr (settle p r s)"
| "step Tick s = tick s"
| "step LoopStep s = Inr (loop_step s)"

fun exec :: "event list \<Rightarrow> state \<Rightarrow> val + state" where
  "exec [] s = Inr s"
| "exec (e # es) s = (case step e s of Inl x \<Rightarrow> Inl x | Inr s' \<Rightarrow> exec es s')"

section \<open>What the claims speak about\<close>

text \<open>
  A work item is executing from the moment \<^verbatim>\<open>Mutex.next\<close> calls it until its completion
  reaction (line 84 or 89) runs: its handler is invoked and pending, or the reaction chain
  of its settled handler is still in the microtask queue, or it is a batch whose promise
  \<^verbatim>\<open>batchDone\<close> has not resolved.
\<close>

fun item_kind :: "kind \<Rightarrow> bool" where
  "item_kind UserH = True"
| "item_kind WriteH = True"
| "item_kind (ReadH cb) = False"

fun job_item :: "job \<Rightarrow> pid option" where
  "job_item (MutexThen p r) = Some p"
| "job_item (MutexCatch p e) = Some p"
| "job_item (WriteResume p r) = Some p"
| "job_item (ReadResume p r cb) = None"
| "job_item (MemberThen cb) = None"

definition executing :: "state \<Rightarrow> pid list" where
  "executing s =
     map fst (filter (\<lambda>a. item_kind (snd a)) (active s))
     @ List.map_filter job_item (jobs s)
     @ map fst (batch_pending s)"

fun begins :: "obs list \<Rightarrow> pid list" where
  "begins [] = []"
| "begins (Begin p # xs) = p # begins xs"
| "begins (x # xs) = begins xs"

fun submits :: "obs list \<Rightarrow> pid list" where
  "submits [] = []"
| "submits (Submit p # xs) = p # submits xs"
| "submits (x # xs) = submits xs"

definition mutex_inv :: "state \<Rightarrow> bool" where
  "mutex_inv s \<longleftrightarrow>
     length (executing s) = (if running s then 1 else 0)
     \<and> (\<not> running s \<longrightarrow> queue s = [])
     \<and> begins (trace s) @ map fst (queue s) = submits (trace s)"

fun invokes :: "obs list \<Rightarrow> pid list" where
  "invokes [] = []"
| "invokes (Invoke p # xs) = p # invokes xs"
| "invokes (x # xs) = invokes xs"

fun mutex_event :: "event \<Rightarrow> bool" where
  "mutex_event CallRead = False"
| "mutex_event CallWrite = False"
| "mutex_event e = True"

fun mutex_reaction :: "job \<Rightarrow> bool" where
  "mutex_reaction (MutexThen p r) = True"
| "mutex_reaction (MutexCatch p e) = True"
| "mutex_reaction j = False"

definition plain_inv :: "state \<Rightarrow> bool" where
  "plain_inv s \<longleftrightarrow>
     list_all (\<lambda>a. snd a = UserH) (active s)
     \<and> list_all (\<lambda>x. snd x = UserFn) (queue s)
     \<and> list_all mutex_reaction (jobs s)
     \<and> frames s = []
     \<and> invokes (trace s) = begins (trace s)"

text \<open>
  Reads in flight: handlers invoked through \<^verbatim>\<open>vvvHandler\<close>, their pending reactions, and
  a batch loop still on the call stack.
\<close>

fun reader_kind :: "kind \<Rightarrow> bool" where
  "reader_kind (ReadH cb) = True"
| "reader_kind k = False"

fun reader_job :: "job \<Rightarrow> bool" where
  "reader_job (ReadResume p r cb) = True"
| "reader_job (MemberThen cb) = True"
| "reader_job j = False"

definition has_readers :: "state \<Rightarrow> bool" where
  "has_readers s \<longleftrightarrow>
     list_ex (\<lambda>a. reader_kind (snd a)) (active s) \<or> list_ex reader_job (jobs s) \<or> frames s \<noteq> []"


text \<open>
  The bookkeeping of the \<^verbatim>\<open>RwLock\<close>.  \<open>readers\<close> counts the members of the running
  batch that have not been accounted for: invoked and pending, settled with a reaction
  still queued, or not yet reached by the loop.  \<open>rw_inv\<close> ties the fields of the lock
  to it; \<open>lock_inv\<close> is the invariant of a lock used through its public interface.
\<close>

fun qlists :: "(pid \<times> task) list \<Rightarrow> lid list" where
  "qlists [] = []"
| "qlists ((p, BatchFn l) # xs) = l # qlists xs"
| "qlists (x # xs) = qlists xs"

fun cb_list :: "callback \<Rightarrow> lid" where
  "cb_list (BatchThen l) = l"
| "cb_list (JoinThen l) = l"

fun kind_lists :: "kind \<Rightarrow> lid list" where
  "kind_lists (ReadH cb) = [cb_list cb]"
| "kind_lists k = []"

fun job_lists :: "job \<Rightarrow> lid list" where
  "job_lists (ReadResume p r cb) = [cb_list cb]"
| "job_lists (MemberThen cb) = [cb_list cb]"
| "job_lists j = []"

definition unstarted_of :: "(lid \<Rightarrow> pid list) \<Rightarrow> (lid \<times> nat) list \<Rightarrow> pid list" where
  "unstarted_of ar fs = concat (map (\<lambda>f. drop (snd f) (ar (fst f))) fs)"

definition unstarted :: "state \<Rightarrow> pid list" where
  "unstarted s = unstarted_of (arrays s) (frames s)"

definition readers :: "state \<Rightarrow> nat" where
  "readers s =
     length (filter (\<lambda>a. reader_kind (snd a)) (active s))
     + length (filter reader_job (jobs s))
     + length (unstarted s)"

definition reader_lists :: "state \<Rightarrow> lid list" where
  "reader_lists s =
     concat (map (\<lambda>a. kind_lists (snd a)) (active s))
     @ concat (map job_lists (jobs s))
     @ map fst (frames s)"

definition batch_lists :: "state \<Rightarrow> lid list" where
  "batch_lists s = qlists (queue s) @ map snd (batch_pending s)"

definition rw_inv :: "state \<Rightarrow> bool" where
  "rw_inv s \<longleftrightarrow>
     remaining s = int (readers s)
     \<and> list_all (\<lambda>b. batchDone s = Some (fst b)) (batch_pending s)
     \<and> (tailFxList s \<noteq> None \<and> queue s = [] \<longrightarrow>
          the (tailFxList s) \<in> snd ` set (batch_pending s))
     \<and> (tailFxList s \<noteq> None \<and> queue s \<noteq> [] \<longrightarrow>
          snd (last (queue s)) = BatchFn (the (tailFxList s)))
     \<and> distinct (batch_lists s)
     \<and> list_all (\<lambda>l. l < next_lid s) (batch_lists s)
     \<and> list_all (\<lambda>l. l \<in> snd ` set (batch_pending s)) (reader_lists s)
     \<and> list_all (\<lambda>l. arrays s l \<noteq> []) (qlists (queue s))
     \<and> (batch_pending s \<noteq> [] \<longrightarrow> 0 < readers s)"

fun rw_event :: "event \<Rightarrow> bool" where
  "rw_event CallRun = False"
| "rw_event e = True"

definition lock_inv :: "state \<Rightarrow> bool" where
  "lock_inv s \<longleftrightarrow> mutex_inv s \<and> rw_inv s"

text \<open>
  \<open>newer n\<close>: the descriptor a read would find, if any, and every array allocated from
  now on, is at address \<open>n\<close> or later.  \<open>joined l\<close>: a handler invoked by a read that
  joined the running batch of array \<open>l\<close>.
\<close>

definition newer :: "lid \<Rightarrow> state \<Rightarrow> bool" where
  "newer n s \<longleftrightarrow> n \<le> next_lid s \<and> (tailFxList s \<noteq> None \<longrightarrow> n \<le> the (tailFxList s))"

fun joined :: "lid \<Rightarrow> pid \<times> kind \<Rightarrow> bool" where
  "joined l (p, ReadH (JoinThen l')) = (l = l')"
| "joined l a = False"



text \<open>
  Who owns a promise.  \<open>pending\<close> lists the promises the lock still has to settle:
  of the queued work items, of the members of queued batches, of the members a running
  loop has not reached, of the invoked handlers, of the queued reactions and of the
  running batch.  \<open>waiting\<close> lists the handlers submitted and not invoked yet.
  \<open>pid_inv\<close>: each promise is owned once, pending promises are unsettled, and no
  handler is invoked twice.
\<close>

fun job_pids :: "job \<Rightarrow> pid list" where
  "job_pids (MutexThen p r) = [p]"
| "job_pids (MutexCatch p e) = [p]"
| "job_pids (WriteResume p r) = [p]"
| "job_pids (ReadResume p r cb) = [p]"
| "job_pids (MemberThen cb) = []"








section \<open>Basic facts\<close>

lemma observe_fields [simp]:
  "running (observe x s) = running s"
  "queue (observe x s) = queue s"
  "remaining (observe x s) = remaining s"
  "tailFxList (observe x s) = tailFxList s"
  "batchDone (observe x s) = batchDone s"
  "arrays (observe x s) = arrays s"
  "next_pid (observe x s) = next_pid s"
  "next_lid (observe x s) = next_lid s"
  "batch_pending (observe x s) = batch_pending s"
  "active (observe x s) = active s"
  "jobs (observe x s) = jobs s"
  "frames (observe x s) = frames s"
  "settled (observe x s) = settled s"
  "trace (observe x s) = trace s @ [x]"
  by (simp_all add: observe_def)

lemma enqueue_fields [simp]:
  "running (enqueue j s) = running s"
  "queue (enqueue j s) = queue s"
  "remaining (enqueue j s) = remaining s"
  "tailFxList (enqueue j s) = tailFxList s"
  "batchDone (enqueue j s) = batchDone s"
  "arrays (enqueue j s) = arrays s"
  "next_pid (enqueue j s) = next_pid s"
  "next_lid (enqueue j s) = next_lid s"
  "batch_pending (enqueue j s) = batch_pending s"
  "active (enqueue j s) = active s"
  "jobs (enqueue j s) = jobs s @ [j]"
  "frames (enqueue j s) = frames s"
  "settled (enqueue j s) = settled s"
  "trace (enqueue j s) = trace s"
  by (simp_all add: enqueue_def)

lemma invoke_handler_fields [simp]:
  "running (invoke_handler p k s) = running s"
  "queue (invoke_handler p k s) = queue s"
  "remaining (invoke_handler p k s) = remaining s"
  "tailFxList (invoke_handler p k s) = tailFxList s"
  "batchDone (invoke_handler p k s) = batchDone s"
  "arrays (invoke_handler p k s) = arrays s"
  "next_pid (invoke_handler p k s) = next_pid s"
  "next_lid (invoke_handler p k s) = next_lid s"
  "batch_pending (invoke_handler p k s) = batch_pending s"
  "active (invoke_handler p k s) = active s @ [(p, k)]"
  "jobs (invoke_handler p k s) = jobs s"
  "frames (invoke_handler p k s) = frames s"
  "settled (invoke_handler p k s) = settled s"
  "trace (invoke_handler p k s) = trace s @ [Invoke p]"
  by (simp_all add: invoke_handler_def)

lemma settle_promise_fields [simp]:
  "running (settle_promise p r s) = running s"
  "queue (settle_promise p r s) = queue s"
  "remaining (settle_promise p r s) = remaining s"
  "tailFxList (settle_promise p r s) = tailFxList s"
  "batchDone (settle_promise p r s) = batchDone s"
  "arrays (settle_promise p r s) = arrays s"
  "next_pid (settle_promise p r s) = next_pid s"
  "next_lid (settle_promise p r s) = next_lid s"
  "batch_pending (settle_promise p r s) = batch_pending s"
  "active (settle_promise p r s) = active s"
  "jobs (settle_promise p r s) = jobs s"
  "frames (settle_promise p r s) = frames s"
  "settled (settle_promise p r s) = (if settled s p = None then (settled s)(p \<mapsto> r) else settled s)"
  "trace (settle_promise p r s) = (if settled s p = None then trace s @ [Settled p r] else trace s)"
  by (simp_all add: settle_promise_def)

lemmas model_defs = init_def run_def next_fx_def call_fx_def loop_step_def read_def write_op_def
  settle_def tick_def mutex_then_def mutex_catch_def batch_then_def join_then_def
  call_batchDone_def getQueueLength_def isIdle_def Let_def

section \<open>The Mutex: one work item at a time, in the order of submission\<close>

text \<open>
  The invariant \<open>mutex_inv\<close> holds after every sequence of events, whoever calls
  \<^verbatim>\<open>Mutex.run\<close>: the caller directly, or a \<^verbatim>\<open>RwLock\<close> through \<open>read\<close> and \<open>write_op\<close>.
\<close>

lemma begins_append [simp]: "begins (xs @ ys) = begins xs @ begins ys"
  by (induction xs rule: begins.induct) auto

lemma submits_append [simp]: "submits (xs @ ys) = submits xs @ submits ys"
  by (induction xs rule: submits.induct) auto

lemma map_filter_append [simp]:
  "List.map_filter f (xs @ ys) = List.map_filter f xs @ List.map_filter f ys"
  by (simp add: List.map_filter_def)

lemma map_filter_Cons_length:
  "length (List.map_filter f (x # xs)) = (case f x of None \<Rightarrow> 0 | Some _ \<Rightarrow> 1) + length (List.map_filter f xs)"
  by (simp add: List.map_filter_def split: option.splits)

lemma length_filter_remove1:
  "x \<in> set xs \<Longrightarrow> length (filter P xs) = length (filter P (remove1 x xs)) + (if P x then 1 else 0)"
  by (induction xs) auto

lemma map_of_mem: "map_of xs p = Some k \<Longrightarrow> (p, k) \<in> set xs"
  by (rule map_of_SomeD)

lemma mutex_inv_init: "mutex_inv init"
  by (simp add: mutex_inv_def init_def executing_def List.map_filter_def)

lemma loop_step_fields [simp]:
  "running (loop_step s) = running s" "queue (loop_step s) = queue s"
  "jobs (loop_step s) = jobs s" "batch_pending (loop_step s) = batch_pending s"
  "filter (\<lambda>a. item_kind (snd a)) (active (loop_step s)) = filter (\<lambda>a. item_kind (snd a)) (active s)"
  "begins (trace (loop_step s)) = begins (trace s)"
  "submits (trace (loop_step s)) = submits (trace s)"
  by (simp_all add: loop_step_def invoke_handler_def observe_def split: list.splits prod.splits)

lemma next_fx_idle: "\<not> running s \<Longrightarrow> \<exists>s'. next_fx s = Inr s'"
  by (simp add: next_fx_def split: list.splits)

lemma mutex_inv_next:
  assumes "length (executing s) = 0" "\<not> running s"
    "begins (trace s) @ map fst (queue s) = submits (trace s)"
    "next_fx s = Inr s'"
  shows "mutex_inv s'"
  using assms
  by (auto simp: next_fx_def mutex_inv_def call_fx_def executing_def invoke_handler_def observe_def Let_def
      split: list.splits task.splits)


lemma mutex_inv_run: "mutex_inv s \<Longrightarrow> mutex_inv (snd (run t s))"
proof -
  assume inv: "mutex_inv s"
  let ?s2 = "observe (Submit (next_pid s)) (s\<lparr>next_pid := Suc (next_pid s), queue := queue s @ [(next_pid s, t)]\<rparr>)"
  show ?thesis
  proof (cases "running s")
    case True
    with inv show ?thesis
      by (simp add: run_def Let_def mutex_inv_def observe_def executing_def)
  next
    case False
    then obtain s3 where n: "next_fx ?s2 = Inr s3"
      using next_fx_idle [of ?s2] by (auto simp: observe_def)
    have "mutex_inv s3"
      by (rule mutex_inv_next [OF _ _ _ n])
         (use inv False in \<open>auto simp: mutex_inv_def observe_def executing_def\<close>)
    with False n show ?thesis
      by (simp add: run_def Let_def observe_def)
  qed
qed

lemma mutex_inv_tail [simp]: "mutex_inv (s\<lparr>tailFxList := x\<rparr>) = mutex_inv s"
  by (simp add: mutex_inv_def executing_def)

lemma mutex_inv_read: "mutex_inv s \<Longrightarrow> mutex_inv (snd (read s))"
proof -
  assume inv: "mutex_inv s"
  have a: "\<And>f g h. mutex_inv (s\<lparr>next_pid := f, next_lid := g, arrays := h, tailFxList := Some (next_lid s)\<rparr>)"
    using inv by (simp add: mutex_inv_def executing_def)
  show ?thesis
    using inv mutex_inv_run [OF a]
    by (auto simp: read_def Let_def split: option.splits)
       (simp_all add: mutex_inv_def executing_def invoke_handler_def observe_def)
qed

lemma mutex_inv_write: "mutex_inv s \<Longrightarrow> mutex_inv (snd (write_op s))"
  by (simp add: write_op_def mutex_inv_run)

lemma mutex_inv_settle: "mutex_inv s \<Longrightarrow> mutex_inv (settle p r s)"
proof (cases "map_of (active s) p")
  case None
  then show "mutex_inv s \<Longrightarrow> ?thesis" by (simp add: settle_def)
next
  case (Some k)
  assume inv: "mutex_inv s"
  have m: "(p, k) \<in> set (active s)" using Some by (rule map_of_SomeD)
  have j: "length (List.map_filter job_item [reaction p k r]) = (if item_kind k then 1 else 0)"
    by (cases k) (simp_all add: List.map_filter_def)
  from inv Some show ?thesis
    using length_filter_remove1 [OF m, of "\<lambda>a. item_kind (snd a)"] j
    by (simp add: settle_def mutex_inv_def executing_def enqueue_def)
qed

lemma mutex_inv_loop_step: "mutex_inv s \<Longrightarrow> mutex_inv (loop_step s)"
  by (simp add: mutex_inv_def executing_def)


lemma executing_settle_promise [simp]: "executing (settle_promise p r s) = executing s"
  by (simp add: executing_def)

lemma mutex_inv_done:
  assumes "length (executing s) = 0" "begins (trace s) @ map fst (queue s) = submits (trace s)"
  shows "\<exists>s'. next_fx (settle_promise p r s\<lparr>running := False\<rparr>) = Inr s' \<and> mutex_inv s'"
proof -
  let ?s = "settle_promise p r s\<lparr>running := False\<rparr>"
  obtain s' where n: "next_fx ?s = Inr s'"
    using next_fx_idle [of ?s] by auto
  have "mutex_inv s'"
    by (rule mutex_inv_next [OF _ _ _ n]) (use assms in \<open>auto simp: executing_def\<close>)
  with n show ?thesis by blast
qed

lemma mutex_inv_call_batchDone: "mutex_inv s \<Longrightarrow> mutex_inv (call_batchDone q s)"
proof (cases "map_of (batch_pending s) q")
  case None
  then show "mutex_inv s \<Longrightarrow> ?thesis" by (simp add: call_batchDone_def)
next
  case (Some l)
  assume inv: "mutex_inv s"
  have m: "(q, l) \<in> set (batch_pending s)" using Some by (rule map_of_SomeD)
  have "length (batch_pending s) = Suc (length (remove1 (q, l) (batch_pending s)))"
    using m by (simp add: length_remove1) (metis Suc_pred length_pos_if_in_set)
  with inv Some show ?thesis
    by (simp add: call_batchDone_def mutex_inv_def executing_def enqueue_def List.map_filter_def)
qed

lemma mutex_inv_member_then:
  assumes "mutex_inv s" "run_job (MemberThen cb) s = Inr s'"
  shows "mutex_inv s'"
proof -
  have a: "\<And>x y. mutex_inv (s\<lparr>remaining := x, tailFxList := y\<rparr>)" "\<And>x. mutex_inv (s\<lparr>remaining := x\<rparr>)"
    using assms(1) by (simp_all add: mutex_inv_def executing_def)
  show ?thesis
    using assms(2) a mutex_inv_call_batchDone
    by (cases cb) (auto simp: batch_then_def join_then_def Let_def split: if_splits option.splits)
qed

lemma mutex_inv_tick:
  assumes "mutex_inv s" "tick s = Inr s'"
  shows "mutex_inv s'"
proof (cases "jobs s")
  case Nil
  with assms show ?thesis by (simp add: tick_def)
next
  case (Cons j js)
  show ?thesis
  proof (cases "frames s = []")
    case False
    with assms Cons show ?thesis by (simp add: tick_def)
  next
    case True
    let ?s = "s\<lparr>jobs := js\<rparr>"
    have r: "run_job j ?s = Inr s'" using assms(2) Cons True by (simp add: tick_def)
    have f: "begins (trace ?s) @ map fst (queue ?s) = submits (trace ?s)"
      using assms(1) by (simp add: mutex_inv_def)
    have ex: "length (executing s) = (case job_item j of None \<Rightarrow> 0 | Some _ \<Rightarrow> 1) + length (executing ?s)"
      using Cons by (simp add: executing_def map_filter_Cons_length del: map_filter_simps)
    have run: "running s \<or> length (executing s) = 0" "length (executing s) \<le> 1"
      using assms(1) by (auto simp: mutex_inv_def split: if_splits)
    show ?thesis
    proof (cases j)
      case (MutexThen p r')
      with ex run have z: "length (executing ?s) = 0" by simp
      show ?thesis
      proof (cases r')
        case (Ok v)
        from mutex_inv_done [OF z f, of p "Ok v"] r MutexThen Ok show ?thesis
          by (auto simp: mutex_then_def Let_def)
      next
        case (Err e)
        with r MutexThen assms(1) Cons show ?thesis
          by (auto simp: mutex_then_def mutex_inv_def executing_def enqueue_def List.map_filter_def)
      qed
    next
      case (MutexCatch p e)
      with ex run have z: "length (executing ?s) = 0" by simp
      from mutex_inv_done [OF z f, of p "Err e"] r MutexCatch show ?thesis
        by (auto simp: mutex_catch_def Let_def)
    next
      case (WriteResume p r')
      with r assms(1) Cons show ?thesis
        by (auto simp: mutex_inv_def executing_def enqueue_def List.map_filter_def)
    next
      case (ReadResume p r' cb)
      with r assms(1) Cons show ?thesis
        by (auto simp: mutex_inv_def executing_def enqueue_def List.map_filter_def)
    next
      case (MemberThen cb)
      have "mutex_inv ?s" using assms(1) Cons MemberThen
        by (simp add: mutex_inv_def executing_def List.map_filter_def)
      with r MemberThen show ?thesis by (auto intro: mutex_inv_member_then)
    qed
  qed
qed

lemma mutex_inv_step: "mutex_inv s \<Longrightarrow> step e s = Inr s' \<Longrightarrow> mutex_inv s'"
  by (cases e)
     (auto simp: mutex_inv_run mutex_inv_read mutex_inv_write mutex_inv_settle mutex_inv_loop_step
           intro: mutex_inv_tick)

lemma mutex_inv_exec: "mutex_inv s \<Longrightarrow> exec es s = Inr s' \<Longrightarrow> mutex_inv s'"
proof (induction es arbitrary: s)
  case Nil
  then show ?case by simp
next
  case (Cons e es)
  then show ?case by (auto split: sum.splits dest: mutex_inv_step)
qed


lemma invokes_append [simp]: "invokes (xs @ ys) = invokes xs @ invokes ys"
  by (induction xs rule: invokes.induct) auto

lemma plain_inv_next:
  "plain_inv s \<Longrightarrow> next_fx s = Inr s' \<Longrightarrow> plain_inv s'"
  by (auto simp: plain_inv_def next_fx_def call_fx_def invoke_handler_def observe_def
      split: if_splits list.splits)

lemma plain_inv_run: "plain_inv s \<Longrightarrow> plain_inv (snd (run UserFn s))"
proof -
  assume inv: "plain_inv s"
  let ?s2 = "observe (Submit (next_pid s)) (s\<lparr>next_pid := Suc (next_pid s), queue := queue s @ [(next_pid s, UserFn)]\<rparr>)"
  have a: "plain_inv ?s2" using inv by (simp add: plain_inv_def observe_def)
  have b: "\<And>e. plain_inv (settle_promise (next_pid s) (Err e) ?s2)"
    using a by (simp add: plain_inv_def settle_promise_def observe_def)
  show ?thesis
    using a b plain_inv_next [of ?s2]
    by (auto simp: run_def Let_def split: sum.splits)
qed

lemma plain_inv_settle: "plain_inv s \<Longrightarrow> plain_inv (settle p r s)"
proof (cases "map_of (active s) p")
  case None
  then show "plain_inv s \<Longrightarrow> ?thesis" by (simp add: settle_def)
next
  case (Some k)
  assume inv: "plain_inv s"
  have m: "(p, k) \<in> set (active s)" using Some by (rule map_of_SomeD)
  with inv have k: "k = UserH" by (auto simp: plain_inv_def list_all_iff)
  have "set (remove1 (p, k) (active s)) \<subseteq> set (active s)" by (rule set_remove1_subset)
  with inv Some k show ?thesis
    by (auto simp: settle_def plain_inv_def enqueue_def list_all_iff)
qed

lemma plain_inv_settle_promise: "plain_inv s \<Longrightarrow> plain_inv (settle_promise p r s\<lparr>running := False\<rparr>)"
  by (simp add: plain_inv_def settle_promise_def observe_def)

lemma plain_inv_tick:
  assumes "plain_inv s" "tick s = Inr s'"
  shows "plain_inv s'"
proof (cases "jobs s")
  case Nil
  with assms show ?thesis by (simp add: tick_def)
next
  case (Cons j js)
  let ?s = "s\<lparr>jobs := js\<rparr>"
  have inv: "plain_inv ?s" and j: "mutex_reaction j"
    using assms(1) Cons by (simp_all add: plain_inv_def)
  have r: "run_job j ?s = Inr s'"
    using assms Cons by (simp add: tick_def plain_inv_def)
  have e: "\<And>x. plain_inv (enqueue (MutexCatch p x) ?s)" for p
    using inv by (simp add: plain_inv_def enqueue_def)
  have e2: "\<And>x. plain_inv (enqueue (MutexCatch p x) (settle_promise p r ?s\<lparr>running := False\<rparr>))" for p r
    using plain_inv_settle_promise [OF inv] by (simp add: plain_inv_def enqueue_def)
  show ?thesis
    using j r e e2 plain_inv_next [OF plain_inv_settle_promise [OF inv]]
    by (cases j) (auto simp: mutex_then_def mutex_catch_def Let_def split: outcome.splits sum.splits)
qed

lemma plain_inv_step:
  "plain_inv s \<Longrightarrow> mutex_event e \<Longrightarrow> step e s = Inr s' \<Longrightarrow> plain_inv s'"
proof (cases e)
  case LoopStep
  assume "plain_inv s" "step e s = Inr s'"
  moreover from this have "loop_step s = s" by (simp add: plain_inv_def loop_step_def)
  ultimately show ?thesis using LoopStep by simp
qed (auto simp: plain_inv_run plain_inv_settle intro: plain_inv_tick)

lemma plain_inv_exec:
  "plain_inv s \<Longrightarrow> list_all mutex_event es \<Longrightarrow> exec es s = Inr s' \<Longrightarrow> plain_inv s'"
proof (induction es arbitrary: s)
  case Nil
  then show ?case by simp
next
  case (Cons e es)
  then show ?case by (auto split: sum.splits dest: plain_inv_step)
qed

lemma plain_active_executing:
  "plain_inv s \<Longrightarrow> length (active s) \<le> length (executing s)"
  by (simp add: plain_inv_def executing_def list_all_iff)

text \<open>
  Claim C1.  After every sequence of calls to \<^verbatim>\<open>Mutex.run\<close>, interleaved in any way with
  the settling of the handlers and with the microtasks, at most one handler is invoked and
  not settled, at most one work item is between its start and its completion reaction, and
  the handlers invoked so far followed by the items still queued are exactly the
  submissions, in order: the handlers begin in the order of submission.
\<close>

theorem C1_run_fifo_no_overlap:
  assumes "list_all mutex_event es" and "exec es init = Inr s"
  shows "length (active s) \<le> 1 \<and> length (executing s) \<le> 1
         \<and> invokes (trace s) @ map fst (queue s) = submits (trace s)"
proof -
  have m: "mutex_inv s" using mutex_inv_init assms(2) by (rule mutex_inv_exec)
  have "plain_inv init" by (simp add: plain_inv_def init_def)
  then have p: "plain_inv s" using assms by (rule plain_inv_exec)
  from m have e: "length (executing s) \<le> 1" by (simp add: mutex_inv_def split: if_splits)
  with plain_active_executing [OF p] have "length (active s) \<le> 1" by simp
  with e m p show ?thesis by (simp add: mutex_inv_def plain_inv_def)
qed

theorem C1_run_fifo_no_overlap_witness:
  "\<exists>s. list_all mutex_event [CallRun, CallRun, CallRun, Settle 0 (Ok ''a''), Tick]
       \<and> exec [CallRun, CallRun, CallRun, Settle 0 (Ok ''a''), Tick] init = Inr s
       \<and> length (active s) \<le> 1 \<and> length (executing s) \<le> 1
       \<and> invokes (trace s) @ map fst (queue s) = submits (trace s)
       \<and> invokes (trace s) = [0, 1] \<and> map fst (queue s) = [2]"
proof -
  let ?es = "[CallRun, CallRun, CallRun, Settle 0 (Ok ''a''), Tick]"
  have a: "list_all mutex_event ?es" by simp
  obtain s where s: "exec ?es init = Inr s" and v: "invokes (trace s) = [0, 1]" "map fst (queue s) = [2]"
    by (simp add: init_def run_def next_fx_def call_fx_def observe_def invoke_handler_def Let_def
        settle_def enqueue_def tick_def mutex_then_def settle_promise_def)
  from C1_run_fifo_no_overlap [OF a s] a s v show ?thesis
    by - (rule exI [of _ s], simp only: simp_thms)
qed

lemma next_fx_begins:
  "\<not> running s \<Longrightarrow> queue s = (p', t) # q \<Longrightarrow>
   \<exists>s' rest. next_fx s = Inr s' \<and> trace s' = trace s @ Begin p' # rest \<and> running s' \<and> queue s' = q"
  by (cases t)
     (auto simp: next_fx_def call_fx_def invoke_handler_def observe_def loop_step_def Let_def)

lemma settle_promise_pending:
  "settled s p = None \<Longrightarrow> trace (settle_promise p r s) = trace s @ [Settled p r] \<and> settled (settle_promise p r s) p = Some r"
  by (simp add: settle_promise_def observe_def)

text \<open>
  Claim C7.  The reaction to the settling of the running work item resolves (line 84) or
  rejects (line 89) the caller's promise, then starts the next queued item, all in one
  microtask: the observation of the settled promise precedes the start of the next item,
  and the lock is not idle when the microtask ends.  Between events the lock is never idle
  with a non-empty queue.
\<close>

theorem C7_no_idle_gap:
  "(exec es init = Inr s \<longrightarrow> isIdle s \<longrightarrow> getQueueLength s = 0)
   \<and> (settled s0 p = None \<and> queue s0 = (p', t) # q \<longrightarrow>
        (\<exists>s' rest. mutex_then p (Ok v) s0 = Inr s'
            \<and> trace s' = trace s0 @ Settled p (Ok v) # Begin p' # rest
            \<and> settled s' p = Some (Ok v) \<and> \<not> isIdle s' \<and> queue s' = q)
        \<and> (\<exists>s' rest. mutex_catch p e s0 = Inr s'
            \<and> trace s' = trace s0 @ Settled p (Err e) # Begin p' # rest
            \<and> settled s' p = Some (Err e) \<and> \<not> isIdle s' \<and> queue s' = q))"
proof (intro conjI impI)
  assume "exec es init = Inr s" "isIdle s"
  moreover from this have "mutex_inv s" using mutex_inv_init mutex_inv_exec by blast
  ultimately show "getQueueLength s = 0"
    by (simp add: mutex_inv_def isIdle_def getQueueLength_def)
next
  assume a: "settled s0 p = None \<and> queue s0 = (p', t) # q"
  have *: "\<exists>s' rest. next_fx (settle_promise p r s0\<lparr>running := False\<rparr>) = Inr s'
            \<and> trace s' = trace s0 @ Settled p r # Begin p' # rest
            \<and> settled s' p = Some r \<and> \<not> isIdle s' \<and> queue s' = q" for r
  proof -
    let ?s2 = "settle_promise p r s0\<lparr>running := False\<rparr>"
    have q: "queue ?s2 = (p', t) # q" "\<not> running ?s2" using a by simp_all
    from next_fx_begins [OF q(2) q(1)] obtain s' rest where
      n: "next_fx ?s2 = Inr s'" "trace s' = trace ?s2 @ Begin p' # rest" "running s'" "queue s' = q"
      by blast
    have "settled s' p = settled ?s2 p"
      using n(1) q
      by (cases t) (auto simp: next_fx_def call_fx_def invoke_handler_def observe_def loop_step_def Let_def split: if_splits)
    with n settle_promise_pending [of s0 p r] a show ?thesis
      by (auto simp: isIdle_def)
  qed
  from * [of "Ok v"] show "\<exists>s' rest. mutex_then p (Ok v) s0 = Inr s'
            \<and> trace s' = trace s0 @ Settled p (Ok v) # Begin p' # rest
            \<and> settled s' p = Some (Ok v) \<and> \<not> isIdle s' \<and> queue s' = q"
    by (auto simp: mutex_then_def Let_def)
  from * [of "Err e"] show "\<exists>s' rest. mutex_catch p e s0 = Inr s'
            \<and> trace s' = trace s0 @ Settled p (Err e) # Begin p' # rest
            \<and> settled s' p = Some (Err e) \<and> \<not> isIdle s' \<and> queue s' = q"
    by (auto simp: mutex_catch_def Let_def)
qed

theorem C7_no_idle_gap_witness:
  "\<exists>s. exec [CallRun, Settle 0 (Ok ''a''), Tick] init = Inr s \<and> isIdle s \<and> getQueueLength s = 0
     \<and> settled (snd (run UserFn (snd (run UserFn init)))) 0 = None
     \<and> queue (snd (run UserFn (snd (run UserFn init)))) = [(1, UserFn)]
     \<and> (\<exists>s' rest. mutex_then 0 (Ok ''a'') (snd (run UserFn (snd (run UserFn init)))) = Inr s'
            \<and> trace s' = trace (snd (run UserFn (snd (run UserFn init)))) @ Settled 0 (Ok ''a'') # Begin 1 # rest
            \<and> settled s' 0 = Some (Ok ''a'') \<and> \<not> isIdle s' \<and> queue s' = [])"
proof -
  let ?es = "[CallRun, Settle 0 (Ok ''a''), Tick]"
  let ?s0 = "snd (run UserFn (snd (run UserFn init)))"
  obtain s where s: "exec ?es init = Inr s" and i: "isIdle s"
    by (simp add: init_def run_def next_fx_def call_fx_def observe_def invoke_handler_def Let_def
        settle_def enqueue_def tick_def mutex_then_def settle_promise_def isIdle_def)
  have h: "settled ?s0 0 = None" "queue ?s0 = [(1, UserFn)]"
    by (simp_all add: init_def run_def next_fx_def call_fx_def observe_def invoke_handler_def Let_def)
  from C7_no_idle_gap [of ?es s ?s0 0 1 UserFn "[]" "''a''" "''b''"] s i h
  show ?thesis by - (rule exI [of _ s], simp)
qed



section \<open>The throw statements are never reached\<close>


lemma loop_step_resolver:
  "batchDone (loop_step s) = batchDone s" "tailFxList (loop_step s) = tailFxList s"
  by (simp_all add: loop_step_def invoke_handler_def observe_def split: list.splits prod.splits)


lemma next_fx_cases:
  assumes "next_fx s = Inr s'"
  obtains "queue s = []" "s' = s" "\<not> running s"
  | fx q where "queue s = fx # q" "s' = call_fx fx (s\<lparr>queue := q, running := True\<rparr>)" "\<not> running s"
  using assms by (auto simp: next_fx_def split: if_splits list.splits)









lemma call_batchDone_resolver [simp]:
  "batchDone (call_batchDone q s) = batchDone s" "tailFxList (call_batchDone q s) = tailFxList s"
  "queue (call_batchDone q s) = queue s" "has_readers (call_batchDone q s) = has_readers s"
  by (simp_all add: call_batchDone_def has_readers_def split: option.splits)








section \<open>The RwLock: the invariant of batches\<close>

lemma unstarted_of_simps [simp]:
  "unstarted_of ar [] = []"
  "unstarted_of ar ((l, i) # fs) = drop i (ar l) @ unstarted_of ar fs"
  by (simp_all add: unstarted_of_def)

lemma unstarted_of_upd:
  "list_all (\<lambda>f. fst f \<noteq> l) fs \<Longrightarrow> unstarted_of (ar(l := x)) fs = unstarted_of ar fs"
  by (induction fs) auto

lemma rw_inv_init: "rw_inv init"
  by (simp add: rw_inv_def init_def readers_def unstarted_def batch_lists_def reader_lists_def)

lemma qlists_append [simp]: "qlists (xs @ ys) = qlists xs @ qlists ys"
  by (induction xs rule: qlists.induct) auto

lemma qlists_last: "xs \<noteq> [] \<Longrightarrow> snd (last xs) = BatchFn l \<Longrightarrow> l \<in> set (qlists xs)"
  by (induction xs rule: qlists.induct) (auto split: if_splits)

lemma no_readers:
  assumes "rw_inv s" "batch_pending s = []"
  shows "frames s = []" "readers s = 0" "reader_lists s = []"
proof -
  from assms show r: "reader_lists s = []"
    by (cases "reader_lists s") (simp_all add: rw_inv_def)
  then show f: "frames s = []" by (simp add: reader_lists_def)
  have "\<not> reader_kind (snd a)" if "a \<in> set (active s)" for a
    using r that by (cases "snd a") (auto simp: reader_lists_def)
  moreover have "\<not> reader_job j" if "j \<in> set (jobs s)" for j
    using r that by (cases j) (auto simp: reader_lists_def)
  ultimately show "readers s = 0"
    using f by (simp add: readers_def unstarted_def)
qed

lemma loop_step_Nil: "frames s = [] \<Longrightarrow> loop_step s = s"
  by (simp add: loop_step_def)

lemma loop_step_more:
  "frames s = (l, i) # fs \<Longrightarrow> i < length (arrays s l) \<Longrightarrow>
   loop_step s = invoke_handler (arrays s l ! i) (ReadH (BatchThen l)) (s\<lparr>frames := (l, Suc i) # fs\<rparr>)"
  by (simp add: loop_step_def)

lemma loop_step_done:
  "frames s = (l, i) # fs \<Longrightarrow> \<not> i < length (arrays s l) \<Longrightarrow> loop_step s = s\<lparr>frames := fs\<rparr>"
  by (simp add: loop_step_def)

lemma loop_step_cases:
  obtains "frames s = []" "loop_step s = s"
  | l i fs where "frames s = (l, i) # fs" "i < length (arrays s l)"
      "loop_step s = invoke_handler (arrays s l ! i) (ReadH (BatchThen l)) (s\<lparr>frames := (l, Suc i) # fs\<rparr>)"
  | l i fs where "frames s = (l, i) # fs" "\<not> i < length (arrays s l)" "loop_step s = s\<lparr>frames := fs\<rparr>"
proof (cases "frames s")
  case Nil
  then show ?thesis using that(1) loop_step_Nil by blast
next
  case (Cons f fs)
  obtain l i where "f = (l, i)" by (cases f)
  with Cons show ?thesis
    using that(2,3) loop_step_more loop_step_done by (cases "i < length (arrays s l)") blast+
qed

lemma rw_inv_loop_step: "rw_inv s \<Longrightarrow> rw_inv (loop_step s)"
proof (cases s rule: loop_step_cases)
  case 1
  then show "rw_inv s \<Longrightarrow> ?thesis" by simp
next
  case (2 l i fs)
  assume inv: "rw_inv s"
  have d: "drop i (arrays s l) = arrays s l ! i # drop (Suc i) (arrays s l)"
    using 2(2) by (simp add: Cons_nth_drop_Suc)
  from inv show ?thesis
    unfolding 2(3)
    by (simp add: rw_inv_def readers_def unstarted_def batch_lists_def reader_lists_def 2(1) d)
next
  case (3 l i fs)
  assume inv: "rw_inv s"
  from inv 3(2) show ?thesis
    unfolding 3(3)
    by (simp add: rw_inv_def readers_def unstarted_def batch_lists_def reader_lists_def 3(1))
qed


lemma rw_inv_call_fx:
  assumes inv: "rw_inv (s\<lparr>queue := fx # q\<rparr>)" and bp: "batch_pending s = []"
  shows "rw_inv (call_fx fx (s\<lparr>queue := q, running := r\<rparr>))"
proof -
  obtain p t where fx: "fx = (p, t)" by (cases fx)
  have nr: "frames s = []" "readers s = 0" "reader_lists s = []"
    using no_readers [OF inv] bp by (simp_all add: readers_def unstarted_def reader_lists_def)
  have tl: "tailFxList s \<noteq> None \<Longrightarrow> snd (last (fx # q)) = BatchFn (the (tailFxList s))"
    using inv by (simp add: rw_inv_def)
  show ?thesis
  proof (cases t)
    case (BatchFn l)
    let ?s3 = "s\<lparr>queue := q, running := r, trace := trace s @ [Begin p], batchDone := Some p,
        batch_pending := [(p, l)], remaining := int (length (arrays s l)), frames := [(l, 0)]\<rparr>"
    have "rw_inv ?s3"
      using inv bp nr tl
      by (auto simp: rw_inv_def fx BatchFn readers_def unstarted_def batch_lists_def reader_lists_def list_all_iff)
    then have "rw_inv (loop_step ?s3)" by (rule rw_inv_loop_step)
    then show ?thesis
      by (simp add: call_fx_def fx BatchFn Let_def observe_def bp nr)
  next
    case UserFn
    have q: "tailFxList s \<noteq> None \<Longrightarrow> q \<noteq> []"
      using tl by (auto simp: fx UserFn)
    show ?thesis
      using inv bp nr tl q
      by (auto simp: rw_inv_def call_fx_def fx UserFn readers_def unstarted_def batch_lists_def reader_lists_def list_all_iff)
  next
    case WriteFn
    have q: "tailFxList s \<noteq> None \<Longrightarrow> q \<noteq> []"
      using tl by (auto simp: fx WriteFn)
    show ?thesis
      using inv bp nr tl q
      by (auto simp: rw_inv_def call_fx_def fx WriteFn readers_def unstarted_def batch_lists_def reader_lists_def list_all_iff)
  qed
qed

lemma rw_inv_next:
  assumes "rw_inv s" "batch_pending s = []" "next_fx s = Inr s'"
  shows "rw_inv s'"
  using assms(3)
proof (cases rule: next_fx_cases)
  case 1
  with assms show ?thesis by simp
next
  case (2 fx q)
  have "s\<lparr>queue := fx # q\<rparr> = s" using 2(1) by simp
  with assms(1) have "rw_inv (s\<lparr>queue := fx # q\<rparr>)" by simp
  then show ?thesis unfolding 2 using assms(2) by (rule rw_inv_call_fx)
qed

lemma idle_no_batch: "mutex_inv s \<Longrightarrow> \<not> running s \<Longrightarrow> batch_pending s = []"
  by (simp add: mutex_inv_def executing_def)

lemma rw_inv_run:
  assumes push: "rw_inv (s\<lparr>queue := queue s @ [(next_pid s, t)]\<rparr>)" and m: "mutex_inv s"
  shows "rw_inv (snd (run t s))"
proof -
  let ?s2 = "observe (Submit (next_pid s)) (s\<lparr>next_pid := Suc (next_pid s), queue := queue s @ [(next_pid s, t)]\<rparr>)"
  have a: "rw_inv ?s2"
    using push by (simp add: rw_inv_def readers_def unstarted_def batch_lists_def reader_lists_def list_all_iff)
  show ?thesis
  proof (cases "running s")
    case True
    with a show ?thesis by (simp add: run_def Let_def)
  next
    case False
    then obtain s3 where n: "next_fx ?s2 = Inr s3"
      using next_fx_idle [of ?s2] by auto
    have "batch_pending ?s2 = []" using idle_no_batch [OF m False] by simp
    with a have "rw_inv s3" using n by (rule rw_inv_next)
    with False n show ?thesis by (simp add: run_def Let_def)
  qed
qed


lemma rw_inv_write: "rw_inv s \<Longrightarrow> mutex_inv s \<Longrightarrow> rw_inv (snd (write_op s))"
  unfolding write_op_def
  by (rule rw_inv_run)
     (simp_all add: rw_inv_def readers_def unstarted_def batch_lists_def reader_lists_def)

lemma rw_inv_call_run:
  "rw_inv s \<Longrightarrow> mutex_inv s \<Longrightarrow> tailFxList s = None \<Longrightarrow> rw_inv (snd (run UserFn s))"
  by (rule rw_inv_run)
     (simp_all add: rw_inv_def readers_def unstarted_def batch_lists_def reader_lists_def)

lemma frames_lists:
  assumes "rw_inv s" "f \<in> set (frames s)"
  shows "fst f \<in> snd ` set (batch_pending s)" "fst f < next_lid s" "fst f \<notin> set (qlists (queue s))"
proof -
  from assms show a: "fst f \<in> snd ` set (batch_pending s)"
    by (auto simp: rw_inv_def reader_lists_def list_all_iff)
  with assms(1) show "fst f < next_lid s" "fst f \<notin> set (qlists (queue s))"
    by (auto simp: rw_inv_def batch_lists_def list_all_iff)
qed

lemma rw_inv_read:
  assumes inv: "rw_inv s" and m: "mutex_inv s"
  shows "rw_inv (snd (read s))"
proof (cases "tailFxList s")
  case None
  let ?l = "next_lid s"
  let ?s3 = "s\<lparr>next_pid := Suc (next_pid s), next_lid := Suc ?l,
      arrays := (arrays s)(?l := [next_pid s]), tailFxList := Some ?l\<rparr>"
  have fr: "list_all (\<lambda>f. fst f \<noteq> ?l) (frames s)"
    using frames_lists(2) [OF inv] by (fastforce simp: list_all_iff)
  have lt: "list_all (\<lambda>l. l < ?l) (batch_lists s)" using inv by (simp add: rw_inv_def)
  then have nl: "?l \<notin> set (batch_lists s)" by (auto simp: list_all_iff)
  have "rw_inv (snd (run (BatchFn ?l) ?s3))"
  proof (rule rw_inv_run)
    show "mutex_inv ?s3" using m by (simp add: mutex_inv_def executing_def)
    let ?s4 = "?s3\<lparr>queue := queue ?s3 @ [(next_pid ?s3, BatchFn ?l)]\<rparr>"
    have nl': "?l \<notin> set (qlists (queue s))" "?l \<notin> snd ` set (batch_pending s)"
      using nl by (auto simp: batch_lists_def)
    have h: "list_all (\<lambda>l'. arrays ?s4 l' \<noteq> []) (qlists (queue ?s4))"
      using inv by (simp add: rw_inv_def list_all_iff)
    have b: "list_all (\<lambda>l. l < next_lid ?s4) (batch_lists ?s4)"
      using lt by (auto simp: batch_lists_def list_all_iff intro: less_SucI)
    show "rw_inv ?s4"
      using inv unstarted_of_upd [OF fr] nl' h b
      by (simp add: rw_inv_def readers_def unstarted_def reader_lists_def batch_lists_def)
  qed
  with None show ?thesis by (simp add: read_def Let_def)
next
  case (Some l)
  show ?thesis
  proof (cases "queue s = []")
    case True
    let ?s' = "invoke_handler (next_pid s) (ReadH (JoinThen l)) (s\<lparr>next_pid := Suc (next_pid s), remaining := remaining s + 1\<rparr>)"
    have l: "l \<in> snd ` set (batch_pending s)" using inv Some True by (simp add: rw_inv_def)
    have "rw_inv ?s'"
      using inv l Some True
      by (simp add: rw_inv_def readers_def unstarted_def reader_lists_def batch_lists_def)
    with Some True show ?thesis
      by (simp add: read_def Let_def getQueueLength_def)
  next
    case False
    let ?s' = "s\<lparr>next_pid := Suc (next_pid s), arrays := (arrays s)(l := arrays s l @ [next_pid s])\<rparr>"
    have "snd (last (queue s)) = BatchFn l" using inv Some False by (simp add: rw_inv_def)
    then have "l \<in> set (qlists (queue s))" using False by (intro qlists_last)
    then have fr: "list_all (\<lambda>f. fst f \<noteq> l) (frames s)"
      using frames_lists(3) [OF inv] by (fastforce simp: list_all_iff)
    have h: "list_all (\<lambda>l'. arrays ?s' l' \<noteq> []) (qlists (queue ?s'))"
      using inv by (simp add: rw_inv_def list_all_iff)
    have "rw_inv ?s'"
      using inv Some False unstarted_of_upd [OF fr] h
      by (simp add: rw_inv_def readers_def unstarted_def reader_lists_def batch_lists_def)
    with Some False show ?thesis
      by (simp add: read_def Let_def getQueueLength_def)
  qed
qed


lemma reaction_reader [simp]:
  "reader_job (reaction p k r) = reader_kind k" "job_lists (reaction p k r) = kind_lists k"
  by (cases k; simp)+

lemma list_all_remove1: "list_all P xs \<Longrightarrow> list_all P (remove1 x xs)"
  by (induction xs) auto

lemma rw_inv_settle: "rw_inv s \<Longrightarrow> rw_inv (settle p r s)"
proof (cases "map_of (active s) p")
  case None
  then show "rw_inv s \<Longrightarrow> ?thesis" by (simp add: settle_def)
next
  case (Some k)
  assume inv: "rw_inv s"
  have m: "(p, k) \<in> set (active s)" using Some by (rule map_of_SomeD)
  let ?s' = "enqueue (reaction p k r) (s\<lparr>active := remove1 (p, k) (active s)\<rparr>)"
  have c: "readers ?s' = readers s"
    using length_filter_remove1 [OF m, of "\<lambda>a. reader_kind (snd a)"]
    by (simp add: readers_def unstarted_def)
  have "set (reader_lists ?s') \<subseteq> set (reader_lists s)"
    using m set_remove1_subset [of "(p, k)" "active s"]
    by (fastforce simp: reader_lists_def)
  then have l: "list_all P (reader_lists ?s')" if "list_all P (reader_lists s)" for P
    using that by (auto simp: list_all_iff)
  have "rw_inv ?s'"
    using inv l [of "\<lambda>l. l \<in> snd ` set (batch_pending s)"]
    by (simp add: rw_inv_def c) (simp add: batch_lists_def)
  with Some show ?thesis by (simp add: settle_def)
qed


lemma join_then_eq: "join_then l s = batch_then l s"
  by (simp add: join_then_def batch_then_def)

lemma member_then_eq: "run_job (MemberThen cb) s = batch_then (cb_list cb) s"
  by (cases cb) (simp_all add: join_then_eq)

lemma kind_lists_Nil [simp]: "kind_lists k = [] \<longleftrightarrow> \<not> reader_kind k"
  by (cases k) simp_all

lemma job_lists_Nil [simp]: "job_lists j = [] \<longleftrightarrow> \<not> reader_job j"
  by (cases j) simp_all

lemma job_lists_other [simp]: "\<not> reader_job j \<Longrightarrow> job_lists j = []"
  by simp

lemma readers_0:
  assumes "readers s = 0" "frames s = []"
  shows "reader_lists s = []"
  using assms by (auto simp: readers_def reader_lists_def filter_empty_conv)

lemma one_batch:
  assumes "mutex_inv s" "l \<in> snd ` set (batch_pending s)"
  shows "\<exists>q. batch_pending s = [(q, l)]"
proof -
  have "length (batch_pending s) \<le> 1"
    using assms(1) by (simp add: mutex_inv_def executing_def split: if_splits)
  with assms(2) show ?thesis
    by (cases "batch_pending s") auto
qed

lemma rw_inv_member_then:
  assumes inv: "rw_inv s" and m: "mutex_inv s" and j: "jobs s = MemberThen cb # js" and f: "frames s = []"
  shows "\<exists>s'. run_job (MemberThen cb) (s\<lparr>jobs := js\<rparr>) = Inr s' \<and> rw_inv s'"
proof -
  let ?l = "cb_list cb"
  let ?s = "s\<lparr>jobs := js\<rparr>"
  have "?l \<in> snd ` set (batch_pending s)"
    using inv j by (cases cb) (simp_all add: rw_inv_def reader_lists_def)
  from one_batch [OF m this] obtain q where bp: "batch_pending s = [(q, ?l)]" by blast
  then have bd: "batchDone s = Some q" using inv by (simp add: rw_inv_def)
  have c: "readers s = Suc (readers ?s)" using j by (simp add: readers_def unstarted_def)
  have rem: "remaining s = int (readers ?s) + 1" using inv c by (simp add: rw_inv_def)
  have sub: "list_all P (reader_lists ?s)" if "list_all P (reader_lists s)" for P
    using that j by (simp add: reader_lists_def)
  show ?thesis
  proof (cases "readers ?s = 0")
    case False
    let ?s1 = "?s\<lparr>remaining := remaining s - 1\<rparr>"
    have "rw_inv ?s1"
      using inv rem sub [of "\<lambda>l. l \<in> snd ` set (batch_pending s)"] False
      by (simp add: rw_inv_def)
         (simp add: readers_def unstarted_def reader_lists_def batch_lists_def)
    with False rem show ?thesis
      by (simp add: member_then_eq batch_then_def Let_def)
  next
    case True
    let ?t = "if tailFxList s = Some ?l then None else tailFxList s"
    let ?s2 = "?s\<lparr>remaining := 0, tailFxList := ?t\<rparr>"
    let ?s3 = "enqueue (MutexThen q (Ok ''undefined'')) (?s2\<lparr>batch_pending := []\<rparr>)"
    have r: "run_job (MemberThen cb) ?s = Inr ?s3"
      using True rem bd bp
      by (simp add: member_then_eq batch_then_def Let_def call_batchDone_def)
    have rl: "reader_lists ?s = []" using True f by (intro readers_0) simp_all
    have tl: "?t \<noteq> None \<Longrightarrow> queue s \<noteq> [] \<and> snd (last (queue s)) = BatchFn (the ?t)"
      using inv bp by (auto simp: rw_inv_def split: if_splits)
    have "rw_inv ?s3"
      unfolding rw_inv_def
    proof (intro conjI)
      show "remaining ?s3 = int (readers ?s3)"
        using True by (simp add: readers_def unstarted_def)
      show "list_all (\<lambda>b. batchDone ?s3 = Some (fst b)) (batch_pending ?s3)" by simp
      show "tailFxList ?s3 \<noteq> None \<and> queue ?s3 = [] \<longrightarrow>
          the (tailFxList ?s3) \<in> snd ` set (batch_pending ?s3)"
        using tl by (cases "tailFxList s = Some ?l") auto
      show "tailFxList ?s3 \<noteq> None \<and> queue ?s3 \<noteq> [] \<longrightarrow>
          snd (last (queue ?s3)) = BatchFn (the (tailFxList ?s3))"
        using tl by (cases "tailFxList s = Some ?l") auto
      show "distinct (batch_lists ?s3)" "list_all (\<lambda>l. l < next_lid ?s3) (batch_lists ?s3)"
        using inv by (simp_all add: rw_inv_def batch_lists_def)
      show "list_all (\<lambda>l. arrays ?s3 l \<noteq> []) (qlists (queue ?s3))"
        using inv by (simp add: rw_inv_def)
      show "batch_pending ?s3 \<noteq> [] \<longrightarrow> 0 < readers ?s3" by simp
      have "reader_lists ?s3 = reader_lists ?s" by (simp add: reader_lists_def)
      with rl show "list_all (\<lambda>l. l \<in> snd ` set (batch_pending ?s3)) (reader_lists ?s3)"
        by simp
    qed
    with r show ?thesis by blast
  qed
qed


lemma rw_inv_tick:
  assumes inv: "rw_inv s" and m: "mutex_inv s" and t: "tick s = Inr s'"
  shows "rw_inv s'"
proof (cases "jobs s")
  case Nil
  with assms show ?thesis by (simp add: tick_def)
next
  case (Cons j js)
  show ?thesis
  proof (cases "frames s = []")
    case False
    with assms Cons show ?thesis by (simp add: tick_def)
  next
    case True
    let ?s = "s\<lparr>jobs := js\<rparr>"
    have r: "run_job j ?s = Inr s'" using t Cons True by (simp add: tick_def)
    have ex: "length (executing s) = (case job_item j of None \<Rightarrow> 0 | Some _ \<Rightarrow> 1) + length (executing ?s)"
      using Cons by (simp add: executing_def map_filter_Cons_length del: map_filter_simps)
    have le: "length (executing s) \<le> 1"
      using m by (auto simp: mutex_inv_def split: if_splits)
    have pop: "rw_inv ?s" if "\<not> reader_job j"
      using inv that Cons
      by (simp add: rw_inv_def) (simp add: readers_def unstarted_def reader_lists_def batch_lists_def)
    have fin: "rw_inv s'" if "job_item j \<noteq> None" "next_fx (settle_promise p x ?s\<lparr>running := False\<rparr>) = Inr s'" for p x
    proof -
      have nr: "\<not> reader_job j" using that(1) by (cases j) simp_all
      have "length (executing ?s) = 0" using ex le that(1) by (auto split: option.splits)
      then have bp: "batch_pending (settle_promise p x ?s\<lparr>running := False\<rparr>) = []"
        by (simp add: executing_def)
      have "rw_inv (settle_promise p x ?s\<lparr>running := False\<rparr>)"
        using pop [OF nr]
        by (simp add: rw_inv_def) (simp add: readers_def unstarted_def reader_lists_def batch_lists_def)
      then show ?thesis using bp that(2) by (rule rw_inv_next)
    qed
    have enq: "rw_inv (enqueue j' ?s)" if "\<not> reader_job j" "\<not> reader_job j'" for j'
      using pop [OF that(1)] that(2)
      by (simp add: rw_inv_def) (simp add: readers_def unstarted_def reader_lists_def batch_lists_def)
    show ?thesis
    proof (cases j)
      case (MutexThen p x)
      show ?thesis
      proof (cases x)
        case (Ok v)
        obtain s'' where n: "next_fx (settle_promise p (Ok v) ?s\<lparr>running := False\<rparr>) = Inr s''"
          using next_fx_idle [of "settle_promise p (Ok v) ?s\<lparr>running := False\<rparr>"] by auto
        with r MutexThen Ok have "s'' = s'" by (simp add: mutex_then_def Let_def)
        with n MutexThen fin [of p "Ok v"] show ?thesis by simp
      next
        case (Err e)
        with r MutexThen enq [of "MutexCatch p e"] show ?thesis
          by (auto simp: mutex_then_def)
      qed
    next
      case (MutexCatch p e)
      with r fin [of p "Err e"] show ?thesis
        by (auto simp: mutex_catch_def Let_def)
    next
      case (WriteResume p x)
      with r enq [of "MutexThen p x"] show ?thesis by auto
    next
      case (ReadResume p x cb)
      have "rw_inv (enqueue (MemberThen cb) (settle_promise p x ?s))"
        using inv Cons ReadResume
        by (simp add: rw_inv_def) (simp add: readers_def unstarted_def reader_lists_def batch_lists_def)
      with r ReadResume show ?thesis by auto
    next
      case (MemberThen cb)
      from rw_inv_member_then [OF inv m _ True, of cb js] Cons MemberThen r show ?thesis by auto
    qed
  qed
qed

lemma lock_inv_step:
  assumes "lock_inv s" "rw_event e \<or> tailFxList s = None" "step e s = Inr s'"
  shows "lock_inv s'"
proof -
  have m: "mutex_inv s'" using assms(1,3) by (auto simp: lock_inv_def dest: mutex_inv_step)
  have "rw_inv s'"
    using assms
    by (cases e)
       (auto simp: lock_inv_def rw_inv_call_run rw_inv_read rw_inv_write rw_inv_settle rw_inv_loop_step
          intro: rw_inv_tick)
  with m show ?thesis by (simp add: lock_inv_def)
qed

lemma lock_inv_exec:
  "lock_inv s \<Longrightarrow> list_all rw_event es \<Longrightarrow> exec es s = Inr s' \<Longrightarrow> lock_inv s'"
proof (induction es arbitrary: s)
  case Nil
  then show ?case by simp
next
  case (Cons e es)
  then show ?case by (auto split: sum.splits dest: lock_inv_step)
qed

lemma lock_inv_init: "lock_inv init"
  by (simp add: lock_inv_def mutex_inv_init rw_inv_init)

section \<open>Batches and writes\<close>

lemma writer_excludes_readers:
  assumes "lock_inv s" "list_ex (\<lambda>a. snd a = WriteH) (active s)"
  shows "readers s = 0" "\<not> list_ex (\<lambda>a. reader_kind (snd a)) (active s)"
proof -
  from assms(2) obtain a where a: "a \<in> set (active s)" "snd a = WriteH"
    by (auto simp: list_ex_iff)
  then have "item_kind (snd a)" by simp
  with a(1) have "filter (\<lambda>a. item_kind (snd a)) (active s) \<noteq> []"
    by (auto simp: filter_empty_conv)
  moreover have "length (executing s) \<le> 1"
    using assms(1) by (simp add: lock_inv_def mutex_inv_def split: if_splits)
  ultimately have "batch_pending s = []"
    by (cases "filter (\<lambda>a. item_kind (snd a)) (active s)") (simp_all add: executing_def)
  with assms(1) show r: "readers s = 0" by (simp add: lock_inv_def no_readers)
  then show "\<not> list_ex (\<lambda>a. reader_kind (snd a)) (active s)"
    by (simp add: readers_def list_ex_iff filter_empty_conv)
qed

lemma batch_live:
  assumes "lock_inv s"
  shows "batch_pending s \<noteq> [] \<longleftrightarrow> remaining s \<noteq> 0"
proof
  assume "batch_pending s \<noteq> []"
  with assms show "remaining s \<noteq> 0" by (simp add: lock_inv_def rw_inv_def)
next
  assume r: "remaining s \<noteq> 0"
  have i: "rw_inv s" using assms by (simp add: lock_inv_def)
  then have c: "remaining s = int (readers s)" by (simp add: rw_inv_def)
  show "batch_pending s \<noteq> []"
  proof
    assume "batch_pending s = []"
    with i have "readers s = 0" by (rule no_readers)
    with c r show False by simp
  qed
qed

lemma batch_then_spec:
  assumes "batchDone s0 = Some q"
  shows "batch_then l s0 =
     Inr (if remaining s0 = 1
          then call_batchDone q
                 (s0\<lparr>remaining := 0,
                     tailFxList := (if tailFxList s0 = Some l then None else tailFxList s0)\<rparr>)
          else s0\<lparr>remaining := remaining s0 - 1\<rparr>)"
  using assms by (simp add: batch_then_def Let_def)

text \<open>
  Claim C2.  After every sequence of \<open>read\<close> and \<open>write\<close> calls, settlings and
  microtasks: \<^verbatim>\<open>remaining\<close> is the number of members of the running batch not yet accounted
  for, joiners included; the promise of the batch's work item is unresolved exactly while
  that number is not zero; and while a write handler is invoked and pending no read handler
  is.  Each completion callback decrements the count, and when it reaches zero, and only
  then, clears \<^verbatim>\<open>tailFxList\<close> if it still is this batch's array and calls
  \<^verbatim>\<open>batchDone\<close>.
\<close>

theorem C2_batch_release:
  assumes "list_all rw_event es" and "exec es init = Inr s"
  shows "remaining s = int (readers s)
     \<and> (batch_pending s \<noteq> [] \<longleftrightarrow> remaining s \<noteq> 0)
     \<and> (list_ex (\<lambda>a. snd a = WriteH) (active s) \<longrightarrow>
          remaining s = 0 \<and> \<not> list_ex (\<lambda>a. reader_kind (snd a)) (active s))
     \<and> (batchDone s0 = Some q \<longrightarrow>
          batch_then l s0 =
            Inr (if remaining s0 = 1
                 then call_batchDone q
                        (s0\<lparr>remaining := 0,
                            tailFxList := (if tailFxList s0 = Some l then None else tailFxList s0)\<rparr>)
                 else s0\<lparr>remaining := remaining s0 - 1\<rparr>)
          \<and> join_then l s0 = batch_then l s0)"
proof -
  have inv: "lock_inv s" using lock_inv_init assms by (rule lock_inv_exec)
  then have c: "remaining s = int (readers s)" by (simp add: lock_inv_def rw_inv_def)
  show ?thesis
  proof (intro conjI impI)
    show "remaining s = int (readers s)" by (rule c)
    show "batch_pending s \<noteq> [] \<longleftrightarrow> remaining s \<noteq> 0" by (rule batch_live [OF inv])
    show "join_then l s0 = batch_then l s0" by (rule join_then_eq)
  next
    assume "list_ex (\<lambda>a. snd a = WriteH) (active s)"
    from writer_excludes_readers [OF inv this] c
    show "remaining s = 0" "\<not> list_ex (\<lambda>a. reader_kind (snd a)) (active s)" by simp_all
  next
    assume "batchDone s0 = Some q"
    then show "batch_then l s0 =
            Inr (if remaining s0 = 1
                 then call_batchDone q
                        (s0\<lparr>remaining := 0,
                            tailFxList := (if tailFxList s0 = Some l then None else tailFxList s0)\<rparr>)
                 else s0\<lparr>remaining := remaining s0 - 1\<rparr>)"
      by (rule batch_then_spec)
  qed
qed


theorem C2_batch_release_witness:
  "\<exists>s. list_all rw_event [CallRead, LoopStep, Settle 0 (Ok ''a''), Tick, Tick, Tick, CallWrite]
     \<and> exec [CallRead, LoopStep, Settle 0 (Ok ''a''), Tick, Tick, Tick, CallWrite] init = Inr s
     \<and> list_ex (\<lambda>a. snd a = WriteH) (active s)
     \<and> remaining s = 0 \<and> \<not> list_ex (\<lambda>a. reader_kind (snd a)) (active s)
     \<and> batchDone (snd (read init)) = Some 1 \<and> remaining (snd (read init)) = 1
     \<and> batch_then 0 (snd (read init))
         = Inr (call_batchDone 1 (snd (read init)\<lparr>remaining := 0, tailFxList := None\<rparr>))"
proof -
  let ?es = "[CallRead, LoopStep, Settle 0 (Ok ''a''), Tick, Tick, Tick, CallWrite]"
  have a: "list_all rw_event ?es" by simp
  have "\<exists>s. exec ?es init = Inr s \<and> list_ex (\<lambda>a. snd a = WriteH) (active s)"
    by (simp add: model_defs)
  then obtain s where s: "exec ?es init = Inr s" and w: "list_ex (\<lambda>a. snd a = WriteH) (active s)"
    by (elim exE conjE)
  have h: "batchDone (snd (read init)) = Some 1" "remaining (snd (read init)) = 1"
    "tailFxList (snd (read init)) = Some 0"
    by (simp_all add: model_defs)
  from C2_batch_release [OF a s, of "snd (read init)" 1 0] a s w h show ?thesis
    by - (rule exI [of _ s], simp)
qed

lemma loop_run:
  "frames s = (l, i) # fs \<Longrightarrow> n = length (arrays s l) - i \<Longrightarrow>
   trace ((loop_step ^^ Suc n) s) = trace s @ map Invoke (drop i (arrays s l))
   \<and> frames ((loop_step ^^ Suc n) s) = fs
   \<and> active ((loop_step ^^ Suc n) s)
       = active s @ map (\<lambda>p. (p, ReadH (BatchThen l))) (drop i (arrays s l))"
proof (induction n arbitrary: s i)
  case 0
  then show ?case by (simp add: loop_step_def)
next
  case (Suc n)
  then have lt: "i < length (arrays s l)" by simp
  let ?s = "loop_step s"
  have st: "?s = invoke_handler (arrays s l ! i) (ReadH (BatchThen l)) (s\<lparr>frames := (l, Suc i) # fs\<rparr>)"
    using Suc.prems(1) lt by (rule loop_step_more)
  have f: "frames ?s = (l, Suc i) # fs" "arrays ?s = arrays s" by (simp_all add: st)
  have n: "n = length (arrays ?s l) - Suc i" using Suc.prems(2) f by simp
  have d: "drop i (arrays s l) = arrays s l ! i # drop (Suc i) (arrays s l)"
    using lt by (simp add: Cons_nth_drop_Suc)
  have "(loop_step ^^ Suc (Suc n)) s = (loop_step ^^ Suc n) ?s"
    by (simp only: funpow_Suc_right o_apply)
  with Suc.IH [OF f(1) n] show ?case
    by (simp add: f d) (simp add: st)
qed

lemma batch_start_invokes:
  "trace ((loop_step ^^ length (arrays s0 l)) (call_fx (q, BatchFn l) s0))
     = trace s0 @ Begin q # map Invoke (arrays s0 l)"
proof -
  let ?s3 = "s0\<lparr>trace := trace s0 @ [Begin q], batchDone := Some q,
        batch_pending := batch_pending s0 @ [(q, l)], remaining := int (length (arrays s0 l)),
        frames := (l, 0) # frames s0\<rparr>"
  have c: "call_fx (q, BatchFn l) s0 = loop_step ?s3"
    by (simp add: call_fx_def Let_def observe_def)
  have "(loop_step ^^ length (arrays s0 l)) (loop_step ?s3) = (loop_step ^^ Suc (length (arrays ?s3 l) - 0)) ?s3"
    by (simp only: funpow_Suc_right o_apply) simp
  with loop_run [of ?s3 l 0 "frames s0" "length (arrays ?s3 l) - 0"] show ?thesis
    by (simp add: c)
qed

text \<open>
  Claim C3.  A \<open>read\<close> that finds a batch descriptor: with a non-empty queue the
  descriptor belongs to the last queued work item, which has not started, and the handler
  is appended to the descriptor's array; with an empty queue the descriptor's work item is
  running (its promise pending, its resolver in \<^verbatim>\<open>batchDone\<close>), the count goes up by one
  and the handler is invoked in the call, with a completion callback equal to the one of
  the loop.  A starting batch invokes every member of its array, in order.
\<close>

theorem C3_read_joins_batch:
  assumes "list_all rw_event es" and "exec es init = Inr s" and "tailFxList s = Some l"
  shows "(queue s \<noteq> [] \<longrightarrow>
            snd (last (queue s)) = BatchFn l \<and> l \<notin> snd ` set (batch_pending s)
            \<and> read s = (next_pid s, s\<lparr>next_pid := Suc (next_pid s),
                                    arrays := (arrays s)(l := arrays s l @ [next_pid s])\<rparr>))
     \<and> (queue s = [] \<longrightarrow>
            (\<exists>q. batch_pending s = [(q, l)] \<and> batchDone s = Some q)
            \<and> read s = (next_pid s, invoke_handler (next_pid s) (ReadH (JoinThen l))
                                    (s\<lparr>next_pid := Suc (next_pid s), remaining := remaining s + 1\<rparr>)))
     \<and> join_then l = batch_then l
     \<and> trace ((loop_step ^^ length (arrays s0 l)) (call_fx (q0, BatchFn l) s0))
         = trace s0 @ Begin q0 # map Invoke (arrays s0 l)"
proof -
  have inv: "lock_inv s" using lock_inv_init assms(1,2) by (rule lock_inv_exec)
  then have rw: "rw_inv s" and m: "mutex_inv s" by (simp_all add: lock_inv_def)
  show ?thesis
  proof (intro conjI impI)
    show "join_then l = batch_then l" by (rule ext) (rule join_then_eq)
    show "trace ((loop_step ^^ length (arrays s0 l)) (call_fx (q0, BatchFn l) s0))
         = trace s0 @ Begin q0 # map Invoke (arrays s0 l)"
      by (rule batch_start_invokes)
  next
    assume q: "queue s \<noteq> []"
    with rw assms(3) show last: "snd (last (queue s)) = BatchFn l" by (simp add: rw_inv_def)
    then have "l \<in> set (qlists (queue s))" using q by (intro qlists_last)
    with rw show "l \<notin> snd ` set (batch_pending s)"
      by (auto simp: rw_inv_def batch_lists_def)
    from q assms(3) show "read s = (next_pid s, s\<lparr>next_pid := Suc (next_pid s),
                                    arrays := (arrays s)(l := arrays s l @ [next_pid s])\<rparr>)"
      by (simp add: read_def Let_def getQueueLength_def)
  next
    assume q: "queue s = []"
    with rw assms(3) have "l \<in> snd ` set (batch_pending s)" by (simp add: rw_inv_def)
    from one_batch [OF m this] obtain q' where "batch_pending s = [(q', l)]" by blast
    moreover from this rw have "batchDone s = Some q'" by (simp add: rw_inv_def)
    ultimately show "\<exists>q. batch_pending s = [(q, l)] \<and> batchDone s = Some q" by blast
    from q assms(3) show "read s = (next_pid s, invoke_handler (next_pid s) (ReadH (JoinThen l))
                                    (s\<lparr>next_pid := Suc (next_pid s), remaining := remaining s + 1\<rparr>))"
      by (simp add: read_def Let_def getQueueLength_def)
  qed
qed


theorem C3_read_joins_batch_witness:
  "(\<exists>s. list_all rw_event [CallRead, CallWrite, CallRead]
      \<and> exec [CallRead, CallWrite, CallRead] init = Inr s
      \<and> tailFxList s = Some 1 \<and> queue s \<noteq> [] \<and> snd (last (queue s)) = BatchFn 1
      \<and> arrays (snd (read s)) 1 = [3, 5])
   \<and> (\<exists>s. list_all rw_event [CallRead] \<and> exec [CallRead] init = Inr s
      \<and> tailFxList s = Some 0 \<and> queue s = [] \<and> batch_pending s = [(1, 0)]
      \<and> remaining (snd (read s)) = 2)"
proof
  let ?es = "[CallRead, CallWrite, CallRead]"
  have a: "list_all rw_event ?es" by simp
  have "\<exists>s. exec ?es init = Inr s \<and> tailFxList s = Some 1 \<and> queue s \<noteq> []
      \<and> arrays s 1 = [3] \<and> next_pid s = 5"
    by (simp add: model_defs)
  then obtain s where s: "exec ?es init = Inr s" and t: "tailFxList s = Some 1" "queue s \<noteq> []"
    and v: "arrays s 1 = [3]" "next_pid s = 5"
    by (elim exE conjE)
  from C3_read_joins_batch [OF a s t(1)] a s t v
  show "\<exists>s. list_all rw_event ?es \<and> exec ?es init = Inr s
      \<and> tailFxList s = Some 1 \<and> queue s \<noteq> [] \<and> snd (last (queue s)) = BatchFn 1
      \<and> arrays (snd (read s)) 1 = [3, 5]"
    by - (rule exI [of _ s], simp)
next
  let ?es = "[CallRead]"
  have a: "list_all rw_event ?es" by simp
  have "\<exists>s. exec ?es init = Inr s \<and> tailFxList s = Some 0 \<and> queue s = []
      \<and> remaining s = 1 \<and> batch_pending s = [(1, 0)]"
    by (simp add: model_defs)
  then obtain s where s: "exec ?es init = Inr s" and t: "tailFxList s = Some 0" "queue s = []"
    and v: "remaining s = 1" "batch_pending s = [(1, 0)]"
    by (elim exE conjE)
  from C3_read_joins_batch [OF a s t(1)] a s t v
  show "\<exists>s. list_all rw_event ?es \<and> exec ?es init = Inr s
      \<and> tailFxList s = Some 0 \<and> queue s = [] \<and> batch_pending s = [(1, 0)]
      \<and> remaining (snd (read s)) = 2"
    by - (rule exI [of _ s], simp)
qed

lemma loop_step_alloc [simp]:
  "next_lid (loop_step s) = next_lid s" "next_pid (loop_step s) = next_pid s"
  "settled (loop_step s) = settled s"
  by (cases s rule: loop_step_cases; simp)+

lemma call_fx_alloc [simp]:
  "tailFxList (call_fx fx s) = tailFxList s" "next_lid (call_fx fx s) = next_lid s"
  "next_pid (call_fx fx s) = next_pid s" "settled (call_fx fx s) = settled s"
  "jobs (call_fx fx s) = jobs s"
  by (cases fx; cases "snd fx"; simp add: call_fx_def Let_def loop_step_resolver)+

lemma next_fx_alloc:
  assumes "next_fx s = Inr s'"
  shows "tailFxList s' = tailFxList s" "next_lid s' = next_lid s" "next_pid s' = next_pid s"
    "settled s' = settled s" "jobs s' = jobs s"
  using assms by (cases rule: next_fx_cases; simp)+

lemma run_cases:
  obtains "running s" "run t s = (next_pid s,
      observe (Submit (next_pid s)) (s\<lparr>next_pid := Suc (next_pid s), queue := queue s @ [(next_pid s, t)]\<rparr>))"
  | s' where "\<not> running s" "run t s = (next_pid s, s')"
      "next_fx (observe (Submit (next_pid s)) (s\<lparr>next_pid := Suc (next_pid s), queue := queue s @ [(next_pid s, t)]\<rparr>)) = Inr s'"
proof (cases "running s")
  case True
  then show ?thesis using that(1) by (simp add: run_def Let_def)
next
  case False
  let ?s2 = "observe (Submit (next_pid s)) (s\<lparr>next_pid := Suc (next_pid s), queue := queue s @ [(next_pid s, t)]\<rparr>)"
  obtain s' where n: "next_fx ?s2 = Inr s'" using next_fx_idle [of ?s2] False by auto
  with False have "run t s = (next_pid s, s')" by (simp add: run_def Let_def)
  with False n show ?thesis using that(2) by blast
qed

lemma run_alloc [simp]:
  "fst (run t s) = next_pid s"
  "tailFxList (snd (run t s)) = tailFxList s" "next_lid (snd (run t s)) = next_lid s"
  "next_pid (snd (run t s)) = Suc (next_pid s)" "settled (snd (run t s)) = settled s"
  "jobs (snd (run t s)) = jobs s"
  by (cases rule: run_cases [where s = s and t = t]; simp add: next_fx_alloc)+

lemma newer_write: "newer (next_lid s) (snd (write_op s))"
  by (simp add: newer_def write_op_def)

lemma newer_read: "newer n s \<Longrightarrow> newer n (snd (read s))"
proof (cases "tailFxList s")
  case None
  assume "newer n s"
  with None show ?thesis by (simp add: newer_def read_def Let_def)
next
  case (Some l)
  assume "newer n s"
  with Some show ?thesis by (cases "queue s = []") (simp_all add: newer_def read_def Let_def getQueueLength_def)
qed

lemma call_batchDone_alloc [simp]:
  "tailFxList (call_batchDone q s) = tailFxList s" "next_lid (call_batchDone q s) = next_lid s"
  "next_pid (call_batchDone q s) = next_pid s"
  by (simp_all add: call_batchDone_def split: option.splits)

lemma newer_next: "next_fx s = Inr s' \<Longrightarrow> newer n s' = newer n s"
  by (simp add: newer_def next_fx_alloc)

lemma newer_frame [simp]:
  "newer n (s\<lparr>jobs := js\<rparr>) = newer n s" "newer n (enqueue j s) = newer n s"
  "newer n (settle_promise p r s) = newer n s" "newer n (s\<lparr>running := b\<rparr>) = newer n s"
  "newer n (s\<lparr>remaining := x\<rparr>) = newer n s" "newer n (call_batchDone q s) = newer n s"
  by (simp_all add: newer_def)

lemma newer_batch_then: "newer n s \<Longrightarrow> batch_then l s = Inr s' \<Longrightarrow> newer n s'"
proof -
  assume a: "newer n s" "batch_then l s = Inr s'"
  have "newer n (s\<lparr>remaining := x, tailFxList := None\<rparr>)" for x
    using a(1) by (simp add: newer_def)
  with a show ?thesis
    by (auto simp: batch_then_def Let_def split: if_splits option.splits)
qed

lemma newer_tick: "newer n s \<Longrightarrow> tick s = Inr s' \<Longrightarrow> newer n s'"
proof (cases "jobs s")
  case Nil
  then show "newer n s \<Longrightarrow> tick s = Inr s' \<Longrightarrow> ?thesis" by (simp add: tick_def)
next
  case (Cons j js)
  assume a: "newer n s" "tick s = Inr s'"
  show ?thesis
  proof (cases "frames s = []")
    case False
    with a Cons show ?thesis by (simp add: tick_def)
  next
    case True
    then have r: "run_job j (s\<lparr>jobs := js\<rparr>) = Inr s'" using a Cons by (simp add: tick_def)
    have nx: "newer n s'" if "next_fx (settle_promise p x (s\<lparr>jobs := js\<rparr>)\<lparr>running := False\<rparr>) = Inr s'" for p x
      using newer_next [OF that, of n] a(1) by simp
    show ?thesis
    proof (cases j)
      case (MutexThen p x)
      with r a(1) nx [of p x] show ?thesis
        by (cases x) (auto simp: mutex_then_def Let_def split: sum.splits)
    next
      case (MutexCatch p e)
      with r a(1) nx [of p "Err e"] show ?thesis
        by (auto simp: mutex_catch_def Let_def)
    next
      case (WriteResume p x)
      with r a(1) show ?thesis by auto
    next
      case (ReadResume p x cb)
      with r a(1) show ?thesis by auto
    next
      case (MemberThen cb)
      with r a(1) newer_batch_then [of n "s\<lparr>jobs := js\<rparr>" "cb_list cb" s'] show ?thesis
        by (simp add: member_then_eq)
    qed
  qed
qed

lemma settle_alloc [simp]:
  "tailFxList (settle p r s) = tailFxList s" "next_lid (settle p r s) = next_lid s"
  "next_pid (settle p r s) = next_pid s" "settled (settle p r s) = settled s"
  by (simp_all add: settle_def split: option.splits)

lemma newer_step: "newer n s \<Longrightarrow> step e s = Inr s' \<Longrightarrow> newer n s'"
proof (cases e)
  case CallRead
  then show "newer n s \<Longrightarrow> step e s = Inr s' \<Longrightarrow> ?thesis" by (auto intro: newer_read)
next
  case Tick
  then show "newer n s \<Longrightarrow> step e s = Inr s' \<Longrightarrow> ?thesis" by (auto intro: newer_tick)
next
  case CallRun
  then show "newer n s \<Longrightarrow> step e s = Inr s' \<Longrightarrow> ?thesis" by (auto simp: newer_def)
next
  case CallWrite
  then show "newer n s \<Longrightarrow> step e s = Inr s' \<Longrightarrow> ?thesis" by (auto simp: newer_def write_op_def)
next
  case (Settle p r)
  then show "newer n s \<Longrightarrow> step e s = Inr s' \<Longrightarrow> ?thesis" by (auto simp: newer_def)
next
  case LoopStep
  then show "newer n s \<Longrightarrow> step e s = Inr s' \<Longrightarrow> ?thesis" by (auto simp: newer_def loop_step_resolver)
qed

lemma newer_exec: "newer n s \<Longrightarrow> exec es s = Inr s' \<Longrightarrow> newer n s'"
proof (induction es arbitrary: s)
  case Nil
  then show ?case by simp
next
  case (Cons e es)
  then show ?case by (auto split: sum.splits dest: newer_step)
qed


lemma loop_step_joined [simp]:
  "arrays (loop_step s) = arrays s" "filter (joined l) (active (loop_step s)) = filter (joined l) (active s)"
  by (cases s rule: loop_step_cases; simp)+

lemma call_fx_joined [simp]:
  "arrays (call_fx fx s) = arrays s" "filter (joined l) (active (call_fx fx s)) = filter (joined l) (active s)"
  by (cases fx; cases "snd fx"; simp add: call_fx_def Let_def)+

lemma next_fx_joined:
  assumes "next_fx s = Inr s'"
  shows "arrays s' = arrays s" "filter (joined l) (active s') = filter (joined l) (active s)"
  using assms by (cases rule: next_fx_cases; simp)+

lemma run_joined [simp]:
  "arrays (snd (run t s)) = arrays s" "filter (joined l) (active (snd (run t s))) = filter (joined l) (active s)"
  by (cases rule: run_cases [where s = s and t = t]; simp add: next_fx_joined)+

lemma read_effect:
  "tailFxList s = None \<Longrightarrow>
     arrays (snd (read s)) = (arrays s)(next_lid s := [next_pid s])
     \<and> filter (joined l') (active (snd (read s))) = filter (joined l') (active s)"
  "tailFxList s = Some l \<Longrightarrow> queue s \<noteq> [] \<Longrightarrow>
     arrays (snd (read s)) = (arrays s)(l := arrays s l @ [next_pid s]) \<and> active (snd (read s)) = active s"
  "tailFxList s = Some l \<Longrightarrow> queue s = [] \<Longrightarrow>
     arrays (snd (read s)) = arrays s \<and> active (snd (read s)) = active s @ [(next_pid s, ReadH (JoinThen l))]"
  by (simp_all add: read_def Let_def getQueueLength_def)

lemma read_joins:
  assumes "next_pid s \<in> set (arrays (snd (read s)) l') - set (arrays s l')
     \<or> (next_pid s, ReadH (JoinThen l')) \<in> set (active (snd (read s))) - set (active s)"
  shows "l' = (case tailFxList s of None \<Rightarrow> next_lid s | Some l \<Rightarrow> l)"
proof (cases "tailFxList s")
  case None
  note e = read_effect(1) [OF None, of l']
  have "(next_pid s, ReadH (JoinThen l')) \<in> set (filter (joined l') (active (snd (read s))))
      \<longleftrightarrow> (next_pid s, ReadH (JoinThen l')) \<in> set (filter (joined l') (active s))"
    by (simp only: conjunct2 [OF e])
  then have "(next_pid s, ReadH (JoinThen l')) \<in> set (active (snd (read s)))
      \<longleftrightarrow> (next_pid s, ReadH (JoinThen l')) \<in> set (active s)"
    by simp
  with assms have "next_pid s \<in> set (((arrays s)(next_lid s := [next_pid s])) l') - set (arrays s l')"
    using conjunct1 [OF e] by simp
  then have "l' = next_lid s" by (cases "l' = next_lid s") simp_all
  with None show ?thesis by simp
next
  case (Some l)
  show ?thesis
  proof (cases "queue s = []")
    case True
    from read_effect(3) [OF Some True] assms have "l' = l" by simp blast
    with Some show ?thesis by simp
  next
    case False
    from read_effect(2) [OF Some False] assms
    have "next_pid s \<in> set (((arrays s)(l := arrays s l @ [next_pid s])) l') - set (arrays s l')" by simp
    then have "l' = l" by (cases "l' = l") simp_all
    with Some show ?thesis by simp
  qed
qed

text \<open>
  Claim C4.  \<open>write\<close> clears \<^verbatim>\<open>tailFxList\<close> and passes the wrapped handler to
  \<^verbatim>\<open>Mutex.run\<close>.  Whatever happens after a write, the descriptor a later read finds was
  allocated after that write: the array such a read appends to, or the batch it joins in
  flight, is never one that existed before the write.
\<close>

theorem C4_write_resets_batch:
  "write_op s = run WriteFn (s\<lparr>tailFxList := None\<rparr>)
   \<and> tailFxList (snd (write_op s)) = None
   \<and> (running s \<longrightarrow> queue (snd (write_op s)) = queue s @ [(next_pid s, WriteFn)])
   \<and> (exec es (snd (write_op s)) = Inr s2 \<longrightarrow>
        (tailFxList s2 = Some l \<longrightarrow> next_lid s \<le> l)
        \<and> (next_pid s2 \<in> set (arrays (snd (read s2)) l') - set (arrays s2 l')
             \<or> (next_pid s2, ReadH (JoinThen l')) \<in> set (active (snd (read s2))) - set (active s2)
            \<longrightarrow> next_lid s \<le> l'))"
proof (intro conjI impI)
  show "write_op s = run WriteFn (s\<lparr>tailFxList := None\<rparr>)" by (simp add: write_op_def)
  show "tailFxList (snd (write_op s)) = None" by (simp add: write_op_def)
next
  assume "running s"
  then show "queue (snd (write_op s)) = queue s @ [(next_pid s, WriteFn)]"
    by (simp add: write_op_def run_def Let_def)
next
  assume e: "exec es (snd (write_op s)) = Inr s2"
  have n: "newer (next_lid s) s2" using newer_write e by (rule newer_exec)
  {
    assume "tailFxList s2 = Some l"
    with n show "next_lid s \<le> l" by (simp add: newer_def)
  }
  assume "next_pid s2 \<in> set (arrays (snd (read s2)) l') - set (arrays s2 l')
     \<or> (next_pid s2, ReadH (JoinThen l')) \<in> set (active (snd (read s2))) - set (active s2)"
  then have "l' = (case tailFxList s2 of None \<Rightarrow> next_lid s2 | Some l \<Rightarrow> l)" by (rule read_joins)
  with n show "next_lid s \<le> l'" by (simp add: newer_def split: option.splits)
qed


theorem C4_write_resets_batch_witness:
  "\<exists>s2. running (snd (read init))
     \<and> exec [CallRead] (snd (write_op (snd (read init)))) = Inr s2
     \<and> tailFxList s2 = Some 1 \<and> next_lid (snd (read init)) \<le> 1
     \<and> next_pid s2 \<in> set (arrays (snd (read s2)) 1) - set (arrays s2 1)"
proof -
  let ?s = "snd (read init)"
  have r: "running ?s" by (simp add: model_defs)
  have "\<exists>s2. exec [CallRead] (snd (write_op ?s)) = Inr s2 \<and> tailFxList s2 = Some 1
      \<and> next_pid s2 \<in> set (arrays (snd (read s2)) 1) - set (arrays s2 1)"
    by (simp add: model_defs)
  then obtain s2 where s2: "exec [CallRead] (snd (write_op ?s)) = Inr s2" and t: "tailFxList s2 = Some 1"
    and j: "next_pid s2 \<in> set (arrays (snd (read s2)) 1) - set (arrays s2 1)"
    by (elim exE conjE)
  from C4_write_resets_batch [of ?s "[CallRead]" s2 1 1] r s2 t j show ?thesis
    by - (rule exI [of _ s2], simp)
qed

section \<open>Promises and handlers are handled once\<close>








lemma job_pids_reaction [simp]: "job_pids (reaction p k r) = [p]"
  by (cases k) simp_all




























section \<open>Settling, failure, and what a call does before it returns\<close>



























end
